theory Spec2Isabelle
  imports Complex_Main
begin

section \<open>Python and numpy primitives used by MDP.py\<close>

text \<open>
  Python floats (and the float32 tensors of the quantile update) are idealised as
  \<^typ>\<open>real\<close>: rounding, infinities and NaN are outside the model. Python integers are
  \<^typ>\<open>int\<close>; sizes that numpy rejects when negative are \<^typ>\<open>nat\<close>.
  An exception is a value \<open>Inl e\<close> of a sum type.
\<close>

datatype py_error = IndexError | ValueError | TypeError | AssertionError

text \<open>Indexing one axis of length \<open>n\<close> with a Python integer: a negative index counts
  from the end, anything outside \<open>-n \<le> i < n\<close> raises IndexError.\<close>

definition np_index :: "nat \<Rightarrow> int \<Rightarrow> py_error + nat" where
  "np_index n i =
     (let j = (if i < 0 then int n + i else i)
      in if 0 \<le> j \<and> j < int n then Inr (nat j) else Inl IndexError)"

text \<open>\<open>np.max\<close> of a one-dimensional array; an empty array raises ValueError.\<close>

fun np_max :: "real list \<Rightarrow> py_error + real" where
  "np_max [] = Inl ValueError"
| "np_max (x # xs) = Inr (fold max xs x)"

text \<open>\<open>np.argmax\<close>: the first index that holds the maximum.\<close>

fun first_index :: "real list \<Rightarrow> real \<Rightarrow> nat" where
  "first_index [] m = 0"
| "first_index (x # xs) m = (if x = m then 0 else Suc (first_index xs m))"

definition np_argmax :: "real list \<Rightarrow> py_error + nat" where
  "np_argmax xs = (case np_max xs of Inl e \<Rightarrow> Inl e | Inr m \<Rightarrow> Inr (first_index xs m))"

text \<open>\<open>.mean(-1)\<close> of one row. (On an empty row numpy yields NaN; the tables of the
  agents have \<open>num_quantiles > 0\<close> entries per row wherever a theorem below uses the mean.)\<close>

definition np_mean :: "real list \<Rightarrow> real" where
  "np_mean xs = sum_list xs / real (length xs)"

text \<open>
  The global random generator is an explicit input. One record holds what the generator
  returns during one iteration of an episode loop: \<open>rand\<close> is the value of
  \<open>np.random.rand()\<close>, \<open>pick\<close> the raw integer from which \<open>np.random.randint\<close> and
  \<open>np.random.choice\<close> take their result, \<open>randn\<close> the value of \<open>np.random.randn()\<close>.
\<close>

record draw =
  rand :: real
  pick :: nat
  randn :: real

definition np_randint :: "nat \<Rightarrow> nat \<Rightarrow> py_error + nat" where
  "np_randint n k = (if n = 0 then Inl ValueError else Inr (k mod n))"

definition np_choice :: "nat list \<Rightarrow> nat \<Rightarrow> py_error + nat" where
  "np_choice cs k = (if cs = [] then Inl ValueError else Inr (cs ! (k mod length cs)))"

section \<open>The Chain environment\<close>

record Chain =
  num_states :: int
  state :: int
  action_dim :: nat
  state_dim :: int
  up_std :: real
  left_std :: real

definition Chain_init :: "int \<Rightarrow> real \<Rightarrow> real \<Rightarrow> Chain" where
  "Chain_init n up left =
     \<lparr>num_states = n, state = 0, action_dim = 2, state_dim = n, up_std = up, left_std = left\<rparr>"

definition reset :: "Chain \<Rightarrow> Chain \<times> int" where
  "reset c = (c\<lparr>state := 0\<rparr>, 0)"

text \<open>
  \<open>Chain.step\<close>. The result is the updated environment and the returned value:
  \<open>Some (next_state, reward, done)\<close> for the tuple \<open>(next_state, reward, done, None)\<close>,
  and \<open>None\<close> for Python's \<open>None\<close>, which a function returns when it falls off its end
  (neither branch of the \<open>if\<close>/\<open>elif\<close> is taken). \<open>z\<close> is the value of
  \<open>np.random.randn()\<close>.
\<close>

definition step :: "Chain \<Rightarrow> int \<Rightarrow> real \<Rightarrow> Chain \<times> (int \<times> real \<times> bool) option" where
  "step c a z =
     (if a = 0 then
        (let c' = c\<lparr>state := state c + 1\<rparr>;
             reward = z * left_std c';
             done = (state c' = num_states c');
             reward' = (if done then reward + 10 else reward)
         in (c', Some (state c', reward', done)))
      else if a = 1 then (c, Some (- 1, z * up_std c, True))
      else (c, None))"

section \<open>The Huber function of the quantile agent\<close>

text \<open>\<open>QuantileAgent.huber(x, k)\<close> on one entry of the tensor; \<open>cond\<close> is the 0/1 mask
  \<open>(x.abs() < k).float()\<close>.\<close>

definition huber :: "real \<Rightarrow> real \<Rightarrow> real" where
  "huber x k =
     (let cond = (if \<bar>x\<bar> < k then 1 else 0)
      in 0.5 * x\<^sup>2 * cond + k * (\<bar>x\<bar> - 0.5 * k) * (1 - cond))"

section \<open>Agents\<close>

text \<open>
  The fields that \<open>QAgent.__init__\<close> and \<open>QuantileAgent.__init__\<close> both set; the value
  table is two-dimensional (state, action) for \<open>QAgent\<close> and three-dimensional
  (state, action, quantile) for \<open>QuantileAgent\<close>. A table is a list of rows; the
  constructors build rectangular tables and no operation changes a shape.
\<close>

record 'q Agent =
  env :: Chain
  eval_env :: Chain
  q_values :: 'q
  epsilon :: real
  discount :: real
  lr :: real
  total_steps :: real

type_synonym QAgent = "real list list Agent"

record QuantileAgent = "real list list list Agent" +
  num_quantiles :: nat
  cumulative_density :: "real list"
  mean_exploration :: bool
  active_quantile :: int

text \<open>
  Both \<open>act\<close> methods end in the same three lines, four times in all: \<open>np.max\<close> of the
  summary \<open>q\<close>, the list of the actions in \<open>range(action_dim)\<close> whose summary equals the
  maximum, and \<open>np.random.choice\<close> among them. Reading \<open>q[i]\<close> beyond the end of \<open>q\<close> raises
  IndexError.
\<close>

definition choose_best :: "nat \<Rightarrow> real list \<Rightarrow> nat \<Rightarrow> py_error + nat" where
  "choose_best n q k =
     (case np_max q of Inl e \<Rightarrow> Inl e | Inr best_q \<Rightarrow>
        if length q < n then Inl IndexError
        else np_choice [i \<leftarrow> [0..<n]. q ! i = best_q] k)"

subsection \<open>QAgent\<close>

text \<open>\<open>env_fn()\<close> is the environment \<open>c\<close>; \<open>np.zeros\<close> refuses a negative dimension.\<close>

definition QAgent_init :: "Chain \<Rightarrow> real \<Rightarrow> real \<Rightarrow> real \<Rightarrow> py_error + QAgent" where
  "QAgent_init c l e g =
     (if state_dim c < 0 then Inl ValueError
      else Inr \<lparr>env = c, eval_env = c,
                q_values = replicate (nat (state_dim c)) (replicate (action_dim c) 0),
                epsilon = e, discount = g, lr = l, total_steps = 0\<rparr>)"

definition QAgent_act :: "QAgent \<Rightarrow> int \<Rightarrow> bool \<Rightarrow> draw \<Rightarrow> py_error + nat" where
  "QAgent_act ag s eval d =
     (if \<not> eval \<and> rand d < epsilon ag then np_randint (action_dim (env ag)) (pick d)
      else
        (case np_index (length (q_values ag)) s of Inl e \<Rightarrow> Inl e | Inr si \<Rightarrow>
           choose_best (action_dim (env ag)) (q_values ag ! si) (pick d)))"

text \<open>Lines 68 to 74 of \<open>QAgent.episode\<close>: the learning update for one transition.\<close>

definition QAgent_update :: "QAgent \<Rightarrow> int \<Rightarrow> nat \<Rightarrow> real \<Rightarrow> int \<Rightarrow> bool \<Rightarrow> py_error + QAgent" where
  "QAgent_update ag s a reward next_state done =
     (case (if done then Inr 0
            else (case np_index (length (q_values ag)) next_state of Inl e \<Rightarrow> Inl e
                  | Inr ni \<Rightarrow>
                    (case np_max (q_values ag ! ni) of Inl e \<Rightarrow> Inl e
                     | Inr m \<Rightarrow> Inr (discount ag * m)))) of
        Inl e \<Rightarrow> Inl e
      | Inr target \<Rightarrow>
        (case np_index (length (q_values ag)) s of Inl e \<Rightarrow> Inl e | Inr si \<Rightarrow>
         (case np_index (length (q_values ag ! si)) (int a) of Inl e \<Rightarrow> Inl e | Inr ai \<Rightarrow>
            (let td_error = reward + target - q_values ag ! si ! ai
             in Inr (ag\<lparr>q_values :=
                  (q_values ag)[si := (q_values ag ! si)[ai := q_values ag ! si ! ai + lr ag * td_error]]\<rparr>)))))"

lemma QAgent_update_shape:
  "QAgent_update ag s a r ns d = Inr ag' \<Longrightarrow>
     length (q_values ag') = length (q_values ag) \<and> env ag' = env ag \<and>
     total_steps ag' = total_steps ag \<and> (\<not> d \<longrightarrow> ns < int (length (q_values ag)))"
  by (auto simp: QAgent_update_def Let_def np_index_def split: sum.splits if_splits)

text \<open>
  The \<open>while True\<close> loop of \<open>QAgent.episode\<close>. \<open>rng t\<close> is what the random generator
  returns in the iteration numbered \<open>t\<close>; the result carries the agent, the accumulated
  reward and the number of the next unused iteration. Unpacking \<open>None\<close> raises TypeError.
\<close>

function QAgent_loop ::
  "QAgent \<Rightarrow> int \<Rightarrow> real \<Rightarrow> (nat \<Rightarrow> draw) \<Rightarrow> nat \<Rightarrow> py_error + (QAgent \<times> real \<times> nat)" where
  "QAgent_loop ag s total_rewards rng t =
     (case QAgent_act ag s False (rng t) of Inl e \<Rightarrow> Inl e | Inr a \<Rightarrow>
      (case step (env ag) (int a) (randn (rng t)) of
         (c, None) \<Rightarrow> Inl TypeError
       | (c, Some (next_state, reward, done)) \<Rightarrow>
         (case QAgent_update (ag\<lparr>env := c, total_steps := total_steps ag + 1\<rparr>)
                 s a reward next_state done of
            Inl e \<Rightarrow> Inl e
          | Inr ag' \<Rightarrow>
            if done then Inr (ag', total_rewards + reward, Suc t)
            else QAgent_loop ag' next_state (total_rewards + reward) rng (Suc t))))"
  by pat_completeness auto

text \<open>An iteration that does not end the episode took action 0 and found the row of
  the next state in the table, so the distance of the environment state to the end of
  the table shrinks.\<close>

termination QAgent_loop
  apply (relation "measure (\<lambda>(ag, s, tr, rng, t). nat (int (length (q_values ag)) - state (env ag)))")
   apply simp
  apply (auto simp: step_def Let_def split: if_splits dest!: QAgent_update_shape)
  done

definition QAgent_episode :: "QAgent \<Rightarrow> (nat \<Rightarrow> draw) \<Rightarrow> nat \<Rightarrow> py_error + (QAgent \<times> real \<times> nat)" where
  "QAgent_episode ag rng t =
     (case reset (env ag) of (c, s) \<Rightarrow> QAgent_loop (ag\<lparr>env := c\<rparr>) s 0 rng t)"

subsection \<open>QuantileAgent\<close>

definition QuantileAgent_init ::
  "Chain \<Rightarrow> real \<Rightarrow> real \<Rightarrow> real \<Rightarrow> nat \<Rightarrow> bool \<Rightarrow> int \<Rightarrow> py_error + QuantileAgent" where
  "QuantileAgent_init c l e g n m aq =
     (if state_dim c < 0 then Inl ValueError
      else Inr \<lparr>env = c, eval_env = c,
                q_values = replicate (nat (state_dim c)) (replicate (action_dim c) (replicate n 0)),
                epsilon = e, discount = g, lr = l, total_steps = 0,
                num_quantiles = n,
                cumulative_density = map (\<lambda>k. (2 * real k + 1) / (2 * real n)) [0..<n],
                mean_exploration = m, active_quantile = aq\<rparr>)"

text \<open>The third axis of the table has \<open>num_quantiles\<close> entries (line 88); the index
  \<open>active_quantile\<close> is checked against it.\<close>

definition QuantileAgent_act :: "QuantileAgent \<Rightarrow> int \<Rightarrow> bool \<Rightarrow> draw \<Rightarrow> py_error + nat" where
  "QuantileAgent_act ag s eval d =
     (if \<not> eval then
        (if rand d < epsilon ag then np_randint (action_dim (env ag)) (pick d)
         else
           (case np_index (length (q_values ag)) s of Inl e \<Rightarrow> Inl e | Inr si \<Rightarrow>
              if mean_exploration ag then
                choose_best (action_dim (env ag)) (map np_mean (q_values ag ! si)) (pick d)
              else
                (case np_index (num_quantiles ag) (active_quantile ag) of Inl e \<Rightarrow> Inl e
                 | Inr qi \<Rightarrow>
                   choose_best (action_dim (env ag)) (map (\<lambda>row. row ! qi) (q_values ag ! si))
                     (pick d))))
      else
        (case np_index (length (q_values ag)) s of Inl e \<Rightarrow> Inl e | Inr si \<Rightarrow>
           choose_best (action_dim (env ag)) (map np_mean (q_values ag ! si)) (pick d)))"

text \<open>Lines 129 to 136: the bootstrap target.\<close>

definition QuantileAgent_target :: "QuantileAgent \<Rightarrow> real \<Rightarrow> int \<Rightarrow> bool \<Rightarrow> py_error + real list" where
  "QuantileAgent_target ag reward next_state done =
     (case (if done then Inr (replicate (num_quantiles ag) 0)
            else (case np_index (length (q_values ag)) next_state of Inl e \<Rightarrow> Inl e
                  | Inr ni \<Rightarrow>
                    (let q_next = map np_mean (q_values ag ! ni)
                     in (case np_argmax q_next of Inl e \<Rightarrow> Inl e
                         | Inr a_next \<Rightarrow>
                           (let quantiles_next = q_values ag ! ni ! a_next
                            in Inr (map (\<lambda>x. discount ag * x) quantiles_next)))))) of
        Inl e \<Rightarrow> Inl e
      | Inr target \<Rightarrow> Inr (map (\<lambda>x. x + reward) target))"

text \<open>
  Lines 140 to 144. \<open>quantiles_next.view(-1, 1) - quantiles\<close> broadcasts a column against a
  row: entry \<open>(i, j)\<close> is \<open>target[i] - quantiles[j]\<close>. The weight row
  \<open>cumulative_density.view(1, -1)\<close> is broadcast along the rows, so it runs along \<open>j\<close>.
  \<open>loss.mean()\<close> divides the sum of all entries by their number.
\<close>

definition pairwise_diff :: "real list \<Rightarrow> real list \<Rightarrow> real list list" where
  "pairwise_diff target quantiles = map (\<lambda>t. map (\<lambda>q. t - q) quantiles) target"

definition loss_entry :: "real \<Rightarrow> real \<Rightarrow> real" where
  "loss_entry d tau = huber d 1 * \<bar>tau - (if d < 0 then 1 else 0)\<bar>"

definition loss_matrix :: "real list list \<Rightarrow> real list \<Rightarrow> real list list" where
  "loss_matrix diff cd = map (\<lambda>row. map2 loss_entry row cd) diff"

definition tensor_mean :: "real list list \<Rightarrow> real" where
  "tensor_mean m = sum_list (concat m) / real (length (concat m))"

definition quantile_loss :: "real list \<Rightarrow> real list \<Rightarrow> real list \<Rightarrow> real" where
  "quantile_loss target quantiles cd = tensor_mean (loss_matrix (pairwise_diff target quantiles) cd)"

text \<open>
  Line 145, \<open>loss.backward()\<close>, written out by the rules of reverse-mode differentiation
  for the operations of lines 117, 118 and 142 to 144: \<open>mean\<close> hands \<open>1 / numel\<close> to every
  entry; the weight \<open>|cumulative_density - (diff.detach() < 0)|\<close> and the mask \<open>cond\<close> are
  detached, hence constant factors; \<open>x.pow(2)\<close> contributes \<open>2 * x\<close>, \<open>x.abs()\<close> contributes
  \<open>sgn x\<close>; \<open>diff[i, j]\<close> depends on \<open>quantiles[j]\<close> with factor \<open>-1\<close>, and the contributions of
  one column are added up. That this is the derivative of \<open>quantile_loss\<close> is a theorem
  below, not part of the definition.
\<close>

definition huber_backward :: "real \<Rightarrow> real \<Rightarrow> real" where
  "huber_backward x k =
     (let cond = (if \<bar>x\<bar> < k then 1 else 0)
      in 0.5 * (2 * x) * cond + k * sgn x * (1 - cond))"

definition loss_backward :: "real list \<Rightarrow> real list \<Rightarrow> real list \<Rightarrow> real list" where
  "loss_backward target quantiles cd =
     (let numel = real (length (concat (loss_matrix (pairwise_diff target quantiles) cd)))
      in map2 (\<lambda>q tau.
           sum_list (map (\<lambda>t. (1 / numel) * \<bar>tau - (if t - q < 0 then 1 else 0)\<bar>
                                * huber_backward (t - q) 1 * (- 1)) target))
         quantiles cd)"

text \<open>Lines 129 to 147: the learning update for one transition.\<close>

definition QuantileAgent_update ::
  "QuantileAgent \<Rightarrow> int \<Rightarrow> nat \<Rightarrow> real \<Rightarrow> int \<Rightarrow> bool \<Rightarrow> py_error + QuantileAgent" where
  "QuantileAgent_update ag s a reward next_state done =
     (case QuantileAgent_target ag reward next_state done of Inl e \<Rightarrow> Inl e
      | Inr target \<Rightarrow>
        (case np_index (length (q_values ag)) s of Inl e \<Rightarrow> Inl e | Inr si \<Rightarrow>
         (case np_index (length (q_values ag ! si)) (int a) of Inl e \<Rightarrow> Inl e | Inr ai \<Rightarrow>
            (let quantiles = q_values ag ! si ! ai;
                 grad = loss_backward target quantiles (cumulative_density ag)
             in Inr (ag\<lparr>q_values :=
                  (q_values ag)[si := (q_values ag ! si)
                     [ai := map2 (\<lambda>x g. x - lr ag * g) quantiles grad]]\<rparr>)))))"

lemma QuantileAgent_update_shape:
  "QuantileAgent_update ag s a r ns d = Inr ag' \<Longrightarrow>
     length (q_values ag') = length (q_values ag) \<and> env ag' = env ag \<and>
     total_steps ag' = total_steps ag \<and> (\<not> d \<longrightarrow> ns < int (length (q_values ag)))"
  by (auto simp: QuantileAgent_update_def QuantileAgent_target_def Let_def np_index_def
      split: sum.splits if_splits)

function QuantileAgent_loop ::
  "QuantileAgent \<Rightarrow> int \<Rightarrow> real \<Rightarrow> (nat \<Rightarrow> draw) \<Rightarrow> nat \<Rightarrow> py_error + (QuantileAgent \<times> real \<times> nat)" where
  "QuantileAgent_loop ag s total_rewards rng t =
     (case QuantileAgent_act ag s False (rng t) of Inl e \<Rightarrow> Inl e | Inr a \<Rightarrow>
      (case step (env ag) (int a) (randn (rng t)) of
         (c, None) \<Rightarrow> Inl TypeError
       | (c, Some (next_state, reward, done)) \<Rightarrow>
         (case QuantileAgent_update (ag\<lparr>env := c, total_steps := total_steps ag + 1\<rparr>)
                 s a reward next_state done of
            Inl e \<Rightarrow> Inl e
          | Inr ag' \<Rightarrow>
            if done then Inr (ag', total_rewards + reward, Suc t)
            else QuantileAgent_loop ag' next_state (total_rewards + reward) rng (Suc t))))"
  by pat_completeness auto

termination QuantileAgent_loop
  apply (relation "measure (\<lambda>(ag, s, tr, rng, t). nat (int (length (q_values ag)) - state (env ag)))")
   apply simp
  apply (auto simp: step_def Let_def split: if_splits dest!: QuantileAgent_update_shape)
  done

definition QuantileAgent_episode ::
  "QuantileAgent \<Rightarrow> (nat \<Rightarrow> draw) \<Rightarrow> nat \<Rightarrow> py_error + (QuantileAgent \<times> real \<times> nat)" where
  "QuantileAgent_episode ag rng t =
     (case reset (env ag) of (c, s) \<Rightarrow> QuantileAgent_loop (ag\<lparr>env := c\<rparr>) s 0 rng t)"

section \<open>Convergence check and training loop\<close>

text \<open>The argument of \<open>check_optimality\<close> is an array of any rank; \<open>Array1\<close> stands
  for the ranks other than 2 and 3, which fail the assertion. Reading columns 0 and 1 of
  a matrix with fewer than two columns raises IndexError.\<close>

datatype ndarray = Array1 "real list" | Array2 "real list list" | Array3 "real list list list"

definition check_optimality :: "ndarray \<Rightarrow> py_error + bool" where
  "check_optimality qv =
     (case (case qv of Array3 t \<Rightarrow> Array2 (map (map np_mean) t) | other \<Rightarrow> other) of
        Array2 m \<Rightarrow>
          if list_ex (\<lambda>row. length row < 2) m then Inl IndexError
          else (let optimal = map (\<lambda>row. row ! 0 - row ! 1 > 0) m
                in Inr (length (filter (\<lambda>b. b) optimal) = length optimal))
      | _ \<Rightarrow> Inl AssertionError)"

text \<open>\<open>run_episodes\<close> takes either agent and uses its \<open>episode\<close>, \<open>q_values\<close> and
  \<open>total_steps\<close>.\<close>

datatype agent = AgentQ QAgent | AgentQuantile QuantileAgent

definition episode :: "agent \<Rightarrow> (nat \<Rightarrow> draw) \<Rightarrow> nat \<Rightarrow> py_error + (agent \<times> real \<times> nat)" where
  "episode ag rng t =
     (case ag of
        AgentQ a \<Rightarrow>
          (case QAgent_episode a rng t of Inl e \<Rightarrow> Inl e
           | Inr (a', r, t') \<Rightarrow> Inr (AgentQ a', r, t'))
      | AgentQuantile a \<Rightarrow>
          (case QuantileAgent_episode a rng t of Inl e \<Rightarrow> Inl e
           | Inr (a', r, t') \<Rightarrow> Inr (AgentQuantile a', r, t')))"

definition agent_q_values :: "agent \<Rightarrow> ndarray" where
  "agent_q_values ag =
     (case ag of AgentQ a \<Rightarrow> Array2 (q_values a) | AgentQuantile a \<Rightarrow> Array3 (q_values a))"

definition agent_total_steps :: "agent \<Rightarrow> real" where
  "agent_total_steps ag =
     (case ag of AgentQ a \<Rightarrow> total_steps a | AgentQuantile a \<Rightarrow> total_steps a)"

definition set_total_steps :: "agent \<Rightarrow> real \<Rightarrow> agent" where
  "set_total_steps ag v =
     (case ag of AgentQ a \<Rightarrow> AgentQ (a\<lparr>total_steps := v\<rparr>)
      | AgentQuantile a \<Rightarrow> AgentQuantile (a\<lparr>total_steps := v\<rparr>))"

text \<open>The loop of \<open>run_episodes\<close>; the \<open>print\<close> calls are left out. The result is the
  agent and the returned value.\<close>

function run_episodes_loop ::
  "agent \<Rightarrow> real \<Rightarrow> nat \<Rightarrow> (nat \<Rightarrow> draw) \<Rightarrow> nat \<Rightarrow> py_error + (agent \<times> real)" where
  "run_episodes_loop ag max_steps ep rng t =
     (case episode ag rng t of Inl e \<Rightarrow> Inl e
      | Inr (ag', online_rewards, t') \<Rightarrow>
        (case check_optimality (agent_q_values ag') of Inl e \<Rightarrow> Inl e
         | Inr optimal \<Rightarrow>
           if optimal then Inr (ag', agent_total_steps ag')
           else if agent_total_steps ag' > max_steps then
             (let ag'' = set_total_steps ag' max_steps in Inr (ag'', agent_total_steps ag''))
           else run_episodes_loop ag' max_steps (Suc ep) rng t'))"
  by pat_completeness auto

declare QAgent_loop.simps [simp del] QuantileAgent_loop.simps [simp del]

lemma QAgent_loop_steps:
  "QAgent_loop ag s tr rng t = Inr (ag', tr', t') \<Longrightarrow> total_steps ag + 1 \<le> total_steps ag'"
proof (induction ag s tr rng t rule: QAgent_loop.induct)
  case (1 ag s total_rewards rng t)
  from "1.prems" obtain a c ns reward dn ag1 where
    act: "QAgent_act ag s False (rng t) = Inr a"
    and st: "step (env ag) (int a) (randn (rng t)) = (c, Some (ns, reward, dn))"
    and up: "QAgent_update (ag\<lparr>env := c, total_steps := total_steps ag + 1\<rparr>) s a reward ns dn = Inr ag1"
    and res: "(if dn then Inr (ag1, total_rewards + reward, Suc t)
              else QAgent_loop ag1 ns (total_rewards + reward) rng (Suc t)) = Inr (ag', tr', t')"
    by (subst (asm) QAgent_loop.simps) (auto split: sum.splits prod.splits option.splits)
  from up have ts: "total_steps ag1 = total_steps ag + 1"
    using QAgent_update_shape[OF up] by simp
  show ?case
  proof (cases dn)
    case True
    with res ts show ?thesis by simp
  next
    case False
    with res have "QAgent_loop ag1 ns (total_rewards + reward) rng (Suc t) = Inr (ag', tr', t')" by simp
    from "1.IH"[OF act st[symmetric] refl refl refl up False this] ts show ?thesis by simp
  qed
qed

lemma QuantileAgent_loop_steps:
  "QuantileAgent_loop ag s tr rng t = Inr (ag', tr', t') \<Longrightarrow> total_steps ag + 1 \<le> total_steps ag'"
proof (induction ag s tr rng t rule: QuantileAgent_loop.induct)
  case (1 ag s total_rewards rng t)
  from "1.prems" obtain a c ns reward dn ag1 where
    act: "QuantileAgent_act ag s False (rng t) = Inr a"
    and st: "step (env ag) (int a) (randn (rng t)) = (c, Some (ns, reward, dn))"
    and up: "QuantileAgent_update (ag\<lparr>env := c, total_steps := total_steps ag + 1\<rparr>) s a reward ns dn = Inr ag1"
    and res: "(if dn then Inr (ag1, total_rewards + reward, Suc t)
              else QuantileAgent_loop ag1 ns (total_rewards + reward) rng (Suc t)) = Inr (ag', tr', t')"
    by (subst (asm) QuantileAgent_loop.simps) (auto split: sum.splits prod.splits option.splits)
  from up have ts: "total_steps ag1 = total_steps ag + 1"
    using QuantileAgent_update_shape[OF up] by simp
  show ?case
  proof (cases dn)
    case True
    with res ts show ?thesis by simp
  next
    case False
    with res have "QuantileAgent_loop ag1 ns (total_rewards + reward) rng (Suc t) = Inr (ag', tr', t')" by simp
    from "1.IH"[OF act st[symmetric] refl refl refl up False this] ts show ?thesis by simp
  qed
qed

lemma episode_steps:
  "episode ag rng t = Inr (ag', r, t') \<Longrightarrow> agent_total_steps ag + 1 \<le> agent_total_steps ag'"
  by (auto simp: episode_def agent_total_steps_def QAgent_episode_def QuantileAgent_episode_def
      reset_def split: agent.splits sum.splits dest: QAgent_loop_steps QuantileAgent_loop_steps)

text \<open>Every episode adds at least one step, so the remaining budget shrinks.\<close>

lemma floor_budget_decreases:
  fixes m a b :: real
  assumes "a + 1 \<le> b" "b \<le> m"
  shows "nat \<lfloor>m - b\<rfloor> < nat \<lfloor>m - a\<rfloor>"
proof -
  have "\<lfloor>m - b\<rfloor> \<le> \<lfloor>m - a - 1\<rfloor>"
    using assms by (intro floor_mono) simp
  also have "\<dots> = \<lfloor>m - a\<rfloor> - 1" by simp
  finally have "\<lfloor>m - b\<rfloor> < \<lfloor>m - a\<rfloor>" by simp
  moreover have "0 \<le> \<lfloor>m - b\<rfloor>" using assms by simp
  ultimately show ?thesis by linarith
qed

termination run_episodes_loop
  apply (relation "measure (\<lambda>(ag, max_steps, ep, rng, t). nat \<lfloor>max_steps - agent_total_steps ag\<rfloor>)")
   apply simp
  apply (simp only: in_measure prod.case)
  apply (rule floor_budget_decreases)
   apply (auto dest: episode_steps)
  done

declare run_episodes_loop.simps [simp del]

definition run_episodes :: "agent \<Rightarrow> real \<Rightarrow> (nat \<Rightarrow> draw) \<Rightarrow> py_error + (agent \<times> real)" where
  "run_episodes ag max_steps rng = run_episodes_loop ag max_steps 0 rng 0"

subsection \<open>The training loop in the words of the specification\<close>

text \<open>
  These two definitions are not taken from the source. They say what the specification
  says of the loop, to be compared with \<open>run_episodes\<close>: \<open>episodes_run n\<close> runs \<open>n\<close>
  episodes one after the other, and after an episode the loop keeps going when the table
  is not optimal and the step count is within the budget.
\<close>

fun episodes_run :: "nat \<Rightarrow> agent \<Rightarrow> (nat \<Rightarrow> draw) \<Rightarrow> nat \<Rightarrow> py_error + (agent \<times> nat)" where
  "episodes_run 0 ag rng t = Inr (ag, t)"
| "episodes_run (Suc n) ag rng t =
     (case episode ag rng t of Inl e \<Rightarrow> Inl e
      | Inr (ag', r, t') \<Rightarrow> episodes_run n ag' rng t')"

definition keeps_going :: "agent \<Rightarrow> real \<Rightarrow> bool" where
  "keeps_going ag max_steps =
     (check_optimality (agent_q_values ag) = Inr False \<and> agent_total_steps ag \<le> max_steps)"

subsection \<open>Agents as the constructors build them\<close>

text \<open>
  These predicates are not taken from one place of the source. They describe the agents
  that the constructors produce for a chain with at least one state and an index
  \<open>active_quantile\<close> within the quantile axis: a rectangular table of shape
  \<open>(num_states, 2)\<close> or \<open>(num_states, 2, num_quantiles)\<close>. The updates keep the shape.
\<close>

definition wf_QAgent :: "QAgent \<Rightarrow> bool" where
  "wf_QAgent ag =
     (0 < length (q_values ag) \<and> num_states (env ag) = int (length (q_values ag)) \<and>
      action_dim (env ag) = 2 \<and> (\<forall>row \<in> set (q_values ag). length row = 2))"

definition wf_QuantileAgent :: "QuantileAgent \<Rightarrow> bool" where
  "wf_QuantileAgent ag =
     (0 < length (q_values ag) \<and> num_states (env ag) = int (length (q_values ag)) \<and>
      action_dim (env ag) = 2 \<and> 0 < num_quantiles ag \<and>
      (\<forall>rows \<in> set (q_values ag). length rows = 2 \<and>
         (\<forall>row \<in> set rows. length row = num_quantiles ag)) \<and>
      length (cumulative_density ag) = num_quantiles ag \<and>
      (mean_exploration ag \<or>
         - int (num_quantiles ag) \<le> active_quantile ag \<and> active_quantile ag < int (num_quantiles ag)))"

definition wf_agent :: "agent \<Rightarrow> bool" where
  "wf_agent ag = (case ag of AgentQ a \<Rightarrow> wf_QAgent a | AgentQuantile a \<Rightarrow> wf_QuantileAgent a)"

section \<open>Concrete agents for the examples\<close>

text \<open>A two-state chain without escape noise, the smallest chain of
  \<open>upper_quantile_chain\<close>, with tables that are not all zero, and values of the random
  generator.\<close>

abbreviation example_QAgent :: QAgent where
  "example_QAgent \<equiv>
     \<lparr>env = Chain_init 2 0 1, eval_env = Chain_init 2 0 1, q_values = [[2, 1], [5, 3]],
      epsilon = 1 / 10, discount = 1 / 2, lr = 1 / 10, total_steps = 0\<rparr>"

abbreviation example_draw :: draw where
  "example_draw \<equiv> \<lparr>rand = 1 / 2, pick = 0, randn = 4\<rparr>"

abbreviation zero_QAgent :: QAgent where
  "zero_QAgent \<equiv>
     \<lparr>env = Chain_init 2 0 1, eval_env = Chain_init 2 0 1, q_values = [[0, 0], [0, 0]],
      epsilon = 1 / 10, discount = 1 / 2, lr = 1 / 10, total_steps = 0\<rparr>"

abbreviation escape_draw :: draw where
  "escape_draw \<equiv> \<lparr>rand = 1 / 2, pick = 1, randn = 4\<rparr>"

abbreviation example_QuantileAgent :: QuantileAgent where
  "example_QuantileAgent \<equiv>
     \<lparr>env = Chain_init 2 0 1, eval_env = Chain_init 2 0 1,
      q_values = [[[0, 1], [0, 0]], [[0, 1], [- 5, - 5]]],
      epsilon = 1 / 10, discount = 1, lr = 1 / 10, total_steps = 0,
      num_quantiles = 2, cumulative_density = [1 / 4, 3 / 4],
      mean_exploration = False, active_quantile = - 1\<rparr>"

abbreviation quiet_draw :: draw where
  "quiet_draw \<equiv> \<lparr>rand = 1 / 2, pick = 0, randn = 0\<rparr>"

abbreviation settled_QuantileAgent :: QuantileAgent where
  "settled_QuantileAgent \<equiv>
     example_QuantileAgent\<lparr>q_values := [[[0, 1], [3, 3]], [[0, 1], [- 5, - 5]]]\<rparr>"

section \<open>Properties\<close>

subsection \<open>Auxiliary facts\<close>

lemma np_max_Max: "xs \<noteq> [] \<Longrightarrow> np_max xs = Inr (Max (set xs))"
  by (cases xs) (simp_all add: Max.set_eq_fold [symmetric])

lemma np_index_less: "np_index n i = Inr j \<Longrightarrow> j < n"
  by (auto simp: np_index_def Let_def split: if_splits)

lemma count_true_all:
  "(length (filter P xs) = length xs) = (\<forall>x \<in> set xs. P x)"
proof (induction xs)
  case Nil
  show ?case by simp
next
  case (Cons x xs)
  have "length (filter P xs) \<le> length xs"
    by (rule length_filter_le)
  then have "length (filter P xs) \<noteq> Suc (length xs)"
    by linarith
  with Cons show ?case by auto
qed

lemma np_index_in_range:
  "0 \<le> i \<Longrightarrow> i < int n \<Longrightarrow> np_index n i = Inr (nat i)"
  by (simp add: np_index_def)

lemma np_index_total:
  "- int n \<le> i \<Longrightarrow> i < int n \<Longrightarrow> \<exists>j. np_index n i = Inr j"
  by (simp add: np_index_def Let_def)

lemma np_choice_range:
  assumes "cs \<noteq> []"
  shows "{a. \<exists>k. np_choice cs k = Inr a} = set cs"
proof
  show "{a. \<exists>k. np_choice cs k = Inr a} \<subseteq> set cs"
    using assms by (auto simp: np_choice_def)
next
  show "set cs \<subseteq> {a. \<exists>k. np_choice cs k = Inr a}"
  proof
    fix c assume "c \<in> set cs"
    then obtain i where i: "i < length cs" "cs ! i = c"
      by (auto simp: in_set_conv_nth)
    then have "np_choice cs i = Inr c"
      using assms by (simp add: np_choice_def)
    then show "c \<in> {a. \<exists>k. np_choice cs k = Inr a}" by blast
  qed
qed

lemma choose_best_range:
  assumes len: "length q = n" and pos: "0 < n"
  shows "{a. \<exists>k. choose_best n q k = Inr a} = {a. a < n \<and> q ! a = Max (set q)}"
    and "\<exists>a. choose_best n q k = Inr a"
proof -
  from len pos have ne: "q \<noteq> []" by auto
  let ?cs = "[i \<leftarrow> [0..<n]. q ! i = Max (set q)]"
  have "Max (set q) \<in> set q" using ne by simp
  then obtain i where "i < n" "q ! i = Max (set q)"
    using len by (auto simp: in_set_conv_nth)
  then have "i \<in> set ?cs" by simp
  then have cs: "?cs \<noteq> []" by (metis empty_iff empty_set)
  have cb: "choose_best n q k = np_choice ?cs k" for k
    using ne len by (simp add: choose_best_def np_max_Max)
  show "{a. \<exists>k. choose_best n q k = Inr a} = {a. a < n \<and> q ! a = Max (set q)}"
    using np_choice_range[OF cs] by (auto simp: cb)
  show "\<exists>a. choose_best n q k = Inr a"
    using cs by (simp add: cb np_choice_def)
qed

lemma choose_best_less:
  assumes "length q = n" "0 < n"
  shows "\<exists>a < n. choose_best n q k = Inr a"
proof -
  from choose_best_range(2) [OF assms, of k] obtain a where a: "choose_best n q k = Inr a"
    by blast
  then have "a \<in> {a. \<exists>k. choose_best n q k = Inr a}" by blast
  with choose_best_range(1) [OF assms] a show ?thesis by auto
qed

lemma first_index_props:
  "m \<in> set xs \<Longrightarrow>
     first_index xs m < length xs \<and> xs ! first_index xs m = m \<and>
     (\<forall>i < first_index xs m. xs ! i \<noteq> m)"
proof (induction xs)
  case Nil
  then show ?case by simp
next
  case (Cons x xs)
  show ?case
  proof (cases "x = m")
    case True
    then show ?thesis by simp
  next
    case False
    with Cons.prems have "m \<in> set xs" by simp
    from Cons.IH [OF this] False show ?thesis
      by (auto simp: nth_Cons split: nat.splits)
  qed
qed

lemma np_argmax_props:
  assumes "xs \<noteq> []"
  shows "\<exists>i < length xs. np_argmax xs = Inr i \<and> (\<forall>j < length xs. xs ! j \<le> xs ! i) \<and>
           (\<forall>j < i. xs ! j < xs ! i)"
proof -
  let ?m = "Max (set xs)"
  let ?i = "first_index xs ?m"
  have m: "?m \<in> set xs" using assms by simp
  from first_index_props [OF m] have i: "?i < length xs" "xs ! ?i = ?m"
    and before: "\<forall>j < ?i. xs ! j \<noteq> ?m"
    by simp_all
  have le: "xs ! j \<le> ?m" if "j < length xs" for j
    using that by simp
  have lt: "xs ! j < ?m" if "j < ?i" for j
  proof -
    from that i have "j < length xs" by simp
    from le [OF this] before that show ?thesis by (simp add: order_less_le)
  qed
  have "np_argmax xs = Inr ?i"
    using assms by (simp add: np_argmax_def np_max_Max)
  with i le lt show ?thesis by auto
qed

text \<open>The definitions to unfold when a concrete run is evaluated.\<close>

lemmas eval_simps =
  np_index_def np_choice_def np_randint_def np_mean_def np_argmax_def step_def reset_def
  Chain_init_def QAgent_act_def QAgent_update_def QAgent_episode_def
  QuantileAgent_act_def choose_best_def QuantileAgent_target_def QuantileAgent_update_def
  QuantileAgent_episode_def pairwise_diff_def loss_entry_def loss_matrix_def tensor_mean_def
  quantile_loss_def huber_def huber_backward_def loss_backward_def
  check_optimality_def episode_def agent_q_values_def agent_total_steps_def set_total_steps_def
  run_episodes_def Let_def eval_nat_numeral

lemma example_QAgent_update:
  "QAgent_update example_QAgent 0 0 4 1 False =
     Inr (example_QAgent\<lparr>q_values := [[49 / 20, 1], [5, 3]]\<rparr>)"
  by (simp add: eval_simps)

lemma example_QuantileAgent_update:
  "QuantileAgent_update example_QuantileAgent 0 0 0 1 False =
     Inr (example_QuantileAgent\<lparr>q_values := [[[1 / 160, 159 / 160], [0, 0]], [[0, 1], [- 5, - 5]]]\<rparr>)"
  by (simp add: eval_simps)

lemma example_QuantileAgent_episode:
  "QuantileAgent_episode example_QuantileAgent (\<lambda>t. quiet_draw) 0 =
     Inr (example_QuantileAgent\<lparr>env := (Chain_init 2 0 1)\<lparr>state := 2\<rparr>,
            q_values := [[[1 / 160, 159 / 160], [0, 0]], [[1 / 80, 83 / 80], [- 5, - 5]]],
            total_steps := 2\<rparr>, 10, 2)"
  by (simp add: eval_simps QuantileAgent_loop.simps)

lemma example_QuantileAgent_run:
  "run_episodes (AgentQuantile example_QuantileAgent) 100 (\<lambda>t. quiet_draw) =
     Inr (AgentQuantile (example_QuantileAgent\<lparr>env := (Chain_init 2 0 1)\<lparr>state := 2\<rparr>,
            q_values := [[[1 / 160, 159 / 160], [0, 0]], [[1 / 80, 83 / 80], [- 5, - 5]]],
            total_steps := 2\<rparr>), 2)"
  by (simp add: eval_simps QuantileAgent_loop.simps run_episodes_loop.simps)

subsection \<open>Chain\<close>

text \<open>
  C9 as stated (an action outside \<open>{0, 1}\<close> makes \<open>Chain.step\<close> fail with an error) does not
  hold: \<open>step\<close> has no raising path. With action 2 it returns \<open>None\<close> and leaves the
  environment as it was.
\<close>

theorem step_invalid_action_counterexample:
  "step (Chain_init 3 0 1) 2 0 = (Chain_init 3 0 1, None)"
  by (simp add: step_def)

text \<open>
  C9, amended: for every action other than 0 and 1, \<open>Chain.step\<close> returns \<open>None\<close> instead
  of a transition tuple, raises nothing and does not change the environment.
\<close>

theorem step_invalid_action_returns_None:
  "a \<noteq> 0 \<Longrightarrow> a \<noteq> 1 \<Longrightarrow> step c a z = (c, None)"
  by (simp add: step_def)

theorem step_invalid_action_returns_None_witness:
  "(5::int) \<noteq> 0 \<and> (5::int) \<noteq> 1 \<and> step (Chain_init 3 0 1) 5 0 = (Chain_init 3 0 1, None)"
  using step_invalid_action_returns_None [of 5 "Chain_init 3 0 1" 0] by simp

subsection \<open>Huber function\<close>

text \<open>
  C3: with the default width \<open>k = 1.0\<close>, \<open>huber x\<close> is \<open>0.5 * x\<^sup>2\<close> when \<open>|x| < 1\<close> and
  \<open>|x| - 0.5\<close> when \<open>|x| \<ge> 1\<close>, for every real \<open>x\<close>.
\<close>

theorem huber_cases:
  "huber x 1 = (if \<bar>x\<bar> < 1 then 0.5 * x\<^sup>2 else \<bar>x\<bar> - 0.5)"
  by (simp add: huber_def)

subsection \<open>QAgent\<close>

text \<open>
  C5: in an iteration of \<open>QAgent.episode\<close> that acts with \<open>a\<close> in state \<open>s\<close> and receives
  \<open>(next_state, reward, done)\<close>, the update succeeds and the entry \<open>Q(s, a)\<close> becomes
  \<open>Q(s, a) + lr * (reward + target - Q(s, a))\<close>, where \<open>target\<close> is 0 for a terminal
  transition and \<open>discount\<close> times the maximum of the row of \<open>next_state\<close> otherwise; the
  loop goes on with the updated agent. The indices are those numpy resolves (\<open>si\<close>, \<open>ai\<close>,
  \<open>ni\<close>), and the row of the next state is not empty.
\<close>

theorem QAgent_update_rule:
  assumes act: "QAgent_act ag s False (rng t) = Inr a"
    and st: "step (env ag) (int a) (randn (rng t)) = (c, Some (next_state, reward, dn))"
    and si: "np_index (length (q_values ag)) s = Inr si"
    and ai: "np_index (length (q_values ag ! si)) (int a) = Inr ai"
    and ni: "dn \<or> (np_index (length (q_values ag)) next_state = Inr ni \<and> q_values ag ! ni \<noteq> [])"
  shows "\<exists>ag'. QAgent_update (ag\<lparr>env := c, total_steps := total_steps ag + 1\<rparr>)
                 s a reward next_state dn = Inr ag' \<and>
           q_values ag' ! si ! ai =
             q_values ag ! si ! ai +
               lr ag * (reward + (if dn then 0 else discount ag * Max (set (q_values ag ! ni)))
                        - q_values ag ! si ! ai) \<and>
           QAgent_loop ag s total_rewards rng t =
             (if dn then Inr (ag', total_rewards + reward, Suc t)
              else QAgent_loop ag' next_state (total_rewards + reward) rng (Suc t))"
proof -
  let ?ag1 = "ag\<lparr>env := c, total_steps := total_steps ag + 1\<rparr>"
  let ?new = "q_values ag ! si ! ai +
               lr ag * (reward + (if dn then 0 else discount ag * Max (set (q_values ag ! ni)))
                        - q_values ag ! si ! ai)"
  have lens: "si < length (q_values ag)" "ai < length (q_values ag ! si)"
    using si ai by (auto dest: np_index_less)
  have "\<exists>ag'. QAgent_update ?ag1 s a reward next_state dn = Inr ag' \<and> q_values ag' ! si ! ai = ?new"
    using si ai ni lens by (auto simp: QAgent_update_def Let_def np_max_Max)
  then obtain ag' where up: "QAgent_update ?ag1 s a reward next_state dn = Inr ag'"
    and val: "q_values ag' ! si ! ai = ?new"
    by blast
  have "QAgent_loop ag s total_rewards rng t =
         (if dn then Inr (ag', total_rewards + reward, Suc t)
          else QAgent_loop ag' next_state (total_rewards + reward) rng (Suc t))"
    by (subst QAgent_loop.simps) (simp add: act st up)
  with up val show ?thesis by blast
qed

theorem QAgent_update_rule_witness:
  "\<exists>ag'. QAgent_update (example_QAgent\<lparr>env := (Chain_init 2 0 1)\<lparr>state := 1\<rparr>, total_steps := 1\<rparr>)
            0 0 4 1 False = Inr ag' \<and>
     q_values ag' ! 0 ! 0 = 49 / 20 \<and>
     QAgent_loop example_QAgent 0 0 (\<lambda>t. example_draw) 0 =
       QAgent_loop ag' 1 4 (\<lambda>t. example_draw) 1"
  using QAgent_update_rule [of example_QAgent 0 "\<lambda>t. example_draw" 0 0
      "(Chain_init 2 0 1)\<lparr>state := 1\<rparr>" 1 4 False 0 0 1 0]
  by (simp add: QAgent_act_def choose_best_def np_index_def np_choice_def step_def Chain_init_def
      eval_nat_numeral)


subsection \<open>Action selection of the quantile agent\<close>

text \<open>
  C7: in a state whose row has one non-empty quantile vector of \<open>num_quantiles\<close> entries
  per action, \<open>QuantileAgent.act\<close> in evaluation
  mode does not depend on \<open>epsilon\<close>, and the actions it can return (over all values of the
  random generator) are exactly the actions whose mean over the quantiles is maximal. In
  training mode, when the uniform sample \<open>rand\<close> is below \<open>epsilon\<close> the action is the result
  of \<open>randint(action_dim)\<close>; otherwise the actions it can return are exactly those that
  maximise the summary, which is the mean over the quantiles when \<open>mean_exploration\<close> is
  set and the entry at \<open>active_quantile\<close> otherwise, a negative index counting from the end.
  The random generator is an input of the model: the event \<open>rand < epsilon\<close> stands for
  "with probability epsilon", and the set of reachable actions for the support of the
  uniform tie-break.
\<close>

theorem QuantileAgent_act_rule:
  assumes si: "np_index (length (q_values ag)) s = Inr si"
    and len: "length (q_values ag ! si) = action_dim (env ag)"
    and pos: "0 < action_dim (env ag)"
    and rows: "\<forall>row \<in> set (q_values ag ! si). length row = num_quantiles ag"
    and nq: "0 < num_quantiles ag"
    and qi: "mean_exploration ag \<or> np_index (num_quantiles ag) (active_quantile ag) = Inr qi"
    and means: "means = map np_mean (q_values ag ! si)"
    and summary: "summary = (if mean_exploration ag then means
                             else map (\<lambda>row. row ! qi) (q_values ag ! si))"
  shows "{a. \<exists>d. QuantileAgent_act ag s True d = Inr a} =
           {a. a < action_dim (env ag) \<and> means ! a = Max (set means)} \<and>
         (\<forall>d. \<exists>a. QuantileAgent_act ag s True d = Inr a) \<and>
         (\<forall>e d. QuantileAgent_act (ag\<lparr>epsilon := e\<rparr>) s True d = QuantileAgent_act ag s True d) \<and>
         (\<forall>d. rand d < epsilon ag \<longrightarrow>
              QuantileAgent_act ag s False d = Inr (pick d mod action_dim (env ag))) \<and>
         {a. \<exists>d. \<not> rand d < epsilon ag \<and> QuantileAgent_act ag s False d = Inr a} =
           {a. a < action_dim (env ag) \<and> summary ! a = Max (set summary)} \<and>
         (\<forall>d. \<exists>a. QuantileAgent_act ag s False d = Inr a) \<and>
         (\<not> mean_exploration ag \<and> active_quantile ag < 0 \<longrightarrow>
              int qi = int (num_quantiles ag) + active_quantile ag)"
proof -
  let ?n = "action_dim (env ag)"
  have lm: "length means = ?n" and ls: "length summary = ?n"
    using len by (simp_all add: means summary)
  have ev: "QuantileAgent_act ag s True d = choose_best ?n means (pick d)" for d
    by (simp add: QuantileAgent_act_def si means)
  have tr: "QuantileAgent_act ag s False d = choose_best ?n summary (pick d)"
    if "\<not> rand d < epsilon ag" for d
    using that qi by (auto simp: QuantileAgent_act_def si means summary)
  have rnd: "QuantileAgent_act ag s False d = Inr (pick d mod ?n)" if "rand d < epsilon ag" for d
    using that pos by (simp add: QuantileAgent_act_def np_randint_def)
  have pk: "\<exists>d::draw. P (pick d)" if "\<exists>k. P k" for P :: "nat \<Rightarrow> bool"
  proof -
    from that obtain k where "P k" by blast
    then have "P (pick \<lparr>rand = 0, pick = k, randn = 0\<rparr>)" by simp
    then show ?thesis by (rule exI [of "\<lambda>d. P (pick d)"])
  qed
  have 1: "{a. \<exists>d. QuantileAgent_act ag s True d = Inr a} =
           {a. a < ?n \<and> means ! a = Max (set means)}"
  proof -
    have "{a. \<exists>d. QuantileAgent_act ag s True d = Inr a} =
          {a. \<exists>k. choose_best ?n means k = Inr a}"
      using pk [of "\<lambda>k. choose_best ?n means k = Inr a" for a] by (auto simp: ev)
    then show ?thesis using choose_best_range(1) [OF lm pos] by simp
  qed
  have 2: "\<forall>d. \<exists>a. QuantileAgent_act ag s True d = Inr a"
    using choose_best_range(2) [OF lm pos] by (simp add: ev)
  have 3: "\<forall>e d. QuantileAgent_act (ag\<lparr>epsilon := e\<rparr>) s True d = QuantileAgent_act ag s True d"
    by (simp add: QuantileAgent_act_def si)
  have 5: "{a. \<exists>d. \<not> rand d < epsilon ag \<and> QuantileAgent_act ag s False d = Inr a} =
           {a. a < ?n \<and> summary ! a = Max (set summary)}"
  proof -
    have "(\<exists>d. \<not> rand d < epsilon ag \<and> QuantileAgent_act ag s False d = Inr a) =
          (\<exists>k. choose_best ?n summary k = Inr a)" for a
    proof
      assume "\<exists>d. \<not> rand d < epsilon ag \<and> QuantileAgent_act ag s False d = Inr a"
      then show "\<exists>k. choose_best ?n summary k = Inr a" using tr by auto
    next
      assume "\<exists>k. choose_best ?n summary k = Inr a"
      then obtain k where k: "choose_best ?n summary k = Inr a" by blast
      let ?d = "\<lparr>rand = epsilon ag, pick = k, randn = 0\<rparr>"
      have "\<not> rand ?d < epsilon ag" by simp
      moreover from this have "QuantileAgent_act ag s False ?d = Inr a"
        using tr [of ?d] k by simp
      ultimately show "\<exists>d. \<not> rand d < epsilon ag \<and> QuantileAgent_act ag s False d = Inr a"
        by blast
    qed
    then show ?thesis using choose_best_range(1) [OF ls pos] by simp
  qed
  have 6: "\<forall>d. \<exists>a. QuantileAgent_act ag s False d = Inr a"
  proof
    fix d show "\<exists>a. QuantileAgent_act ag s False d = Inr a"
      using rnd [of d] tr [of d] choose_best_range(2) [OF ls pos, of "pick d"]
      by (cases "rand d < epsilon ag") auto
  qed
  have 7: "\<not> mean_exploration ag \<and> active_quantile ag < 0 \<longrightarrow>
              int qi = int (num_quantiles ag) + active_quantile ag"
    using qi by (auto simp: np_index_def Let_def split: if_splits)
  from 1 2 3 rnd 5 6 7 show ?thesis by blast
qed


theorem QuantileAgent_act_rule_witness:
  "{a. \<exists>d. QuantileAgent_act example_QuantileAgent 0 True d = Inr a} = {0} \<and>
   {a. \<exists>d. \<not> rand d < epsilon example_QuantileAgent \<and>
        QuantileAgent_act example_QuantileAgent 0 False d = Inr a} = {0} \<and>
   QuantileAgent_act example_QuantileAgent 0 False \<lparr>rand = 0, pick = 3, randn = 0\<rparr> = Inr 1 \<and>
   int 1 = int (num_quantiles example_QuantileAgent) + active_quantile example_QuantileAgent"
proof -
  have s: "{a. a < (2::nat) \<and> [1 / 2, 0 :: real] ! a = 1 / 2} = {0}"
    "{a. a < (2::nat) \<and> [1, 0 :: real] ! a = 1} = {0}"
    by (auto simp: less_2_cases_iff)
  show ?thesis
    using QuantileAgent_act_rule [of example_QuantileAgent 0 0 1 "[1 / 2, 0]" "[1, 0]"] s
    by (simp add: np_index_def np_mean_def Chain_init_def)
qed

subsection \<open>Bootstrap target of the quantile agent\<close>

text \<open>
  C2: the bootstrap target that \<open>QuantileAgent.episode\<close> computes for a transition is, when
  the transition is terminal, the vector of \<open>num_quantiles\<close> entries equal to \<open>reward\<close>;
  otherwise (the next state has actions, each with a non-empty quantile vector) it is the
  quantile vector of the action of the next state whose mean over the quantiles is
  maximal (the first such action), every entry multiplied by \<open>discount\<close> and
  increased by \<open>reward\<close>. The target does not depend on \<open>mean_exploration\<close> and
  \<open>active_quantile\<close>.
\<close>

theorem QuantileAgent_target_rule:
  "QuantileAgent_target ag reward next_state True = Inr (replicate (num_quantiles ag) reward) \<and>
   (np_index (length (q_values ag)) next_state = Inr ni \<and> q_values ag ! ni \<noteq> [] \<and>
    (\<forall>row \<in> set (q_values ag ! ni). row \<noteq> []) \<longrightarrow>
      (\<exists>a_next < length (q_values ag ! ni).
         (\<forall>a < length (q_values ag ! ni).
            np_mean (q_values ag ! ni ! a) \<le> np_mean (q_values ag ! ni ! a_next)) \<and>
         (\<forall>a < a_next. np_mean (q_values ag ! ni ! a) < np_mean (q_values ag ! ni ! a_next)) \<and>
         QuantileAgent_target ag reward next_state False =
           Inr (map (\<lambda>x. discount ag * x + reward) (q_values ag ! ni ! a_next)))) \<and>
   QuantileAgent_target (ag\<lparr>mean_exploration := b, active_quantile := k\<rparr>) reward next_state dn =
     QuantileAgent_target ag reward next_state dn"
proof -
  have 1: "QuantileAgent_target ag reward next_state True = Inr (replicate (num_quantiles ag) reward)"
    by (simp add: QuantileAgent_target_def)
  have 2: "\<exists>a_next < length (q_values ag ! ni).
         (\<forall>a < length (q_values ag ! ni).
            np_mean (q_values ag ! ni ! a) \<le> np_mean (q_values ag ! ni ! a_next)) \<and>
         (\<forall>a < a_next. np_mean (q_values ag ! ni ! a) < np_mean (q_values ag ! ni ! a_next)) \<and>
         QuantileAgent_target ag reward next_state False =
           Inr (map (\<lambda>x. discount ag * x + reward) (q_values ag ! ni ! a_next))"
    if ni: "np_index (length (q_values ag)) next_state = Inr ni" and ne: "q_values ag ! ni \<noteq> []"
  proof -
    let ?rows = "q_values ag ! ni"
    from ne have "map np_mean ?rows \<noteq> []" by simp
    from np_argmax_props [OF this] obtain i where
      i: "i < length ?rows" "np_argmax (map np_mean ?rows) = Inr i"
      and le: "\<forall>j < length ?rows. map np_mean ?rows ! j \<le> map np_mean ?rows ! i"
      and lt: "\<forall>j < i. map np_mean ?rows ! j < map np_mean ?rows ! i"
      by auto
    have "QuantileAgent_target ag reward next_state False =
           Inr (map (\<lambda>x. discount ag * x + reward) (?rows ! i))"
      using ni i by (simp add: QuantileAgent_target_def Let_def o_def)
    moreover have "\<forall>a < length ?rows. np_mean (?rows ! a) \<le> np_mean (?rows ! i)"
      using le i by simp
    moreover have "\<forall>a < i. np_mean (?rows ! a) < np_mean (?rows ! i)"
      using lt i by simp
    ultimately show ?thesis using i(1) by blast
  qed
  have 3: "QuantileAgent_target (ag\<lparr>mean_exploration := b, active_quantile := k\<rparr>) reward next_state dn =
     QuantileAgent_target ag reward next_state dn"
    by (simp add: QuantileAgent_target_def Let_def cong: sum.case_cong)
  from 1 2 3 show ?thesis by blast
qed

theorem QuantileAgent_target_rule_witness:
  "QuantileAgent_target example_QuantileAgent 7 1 True = Inr [7, 7] \<and>
   QuantileAgent_target example_QuantileAgent 7 1 False = Inr [7, 8] \<and>
   QuantileAgent_target (example_QuantileAgent\<lparr>mean_exploration := True, active_quantile := 0\<rparr>)
      7 1 False = Inr [7, 8] \<and>
   (\<exists>a_next < length (q_values example_QuantileAgent ! 1).
         (\<forall>a < length (q_values example_QuantileAgent ! 1).
            np_mean (q_values example_QuantileAgent ! 1 ! a) \<le>
            np_mean (q_values example_QuantileAgent ! 1 ! a_next)) \<and>
         (\<forall>a < a_next. np_mean (q_values example_QuantileAgent ! 1 ! a) <
            np_mean (q_values example_QuantileAgent ! 1 ! a_next)) \<and>
         QuantileAgent_target example_QuantileAgent 7 1 False =
           Inr (map (\<lambda>x. discount example_QuantileAgent * x + 7)
                  (q_values example_QuantileAgent ! 1 ! a_next)))"
proof -
  have t: "QuantileAgent_target example_QuantileAgent 7 1 False = Inr [7, 8]"
    by (simp add: eval_simps)
  have i: "np_index (length (q_values example_QuantileAgent)) 1 = Inr 1 \<and>
           q_values example_QuantileAgent ! 1 \<noteq> [] \<and>
           (\<forall>row \<in> set (q_values example_QuantileAgent ! 1). row \<noteq> [])"
    by (simp add: np_index_def)
  note r = QuantileAgent_target_rule [where ag = example_QuantileAgent and reward = 7
      and next_state = 1 and ni = 1 and b = True and k = 0 and dn = False]
  from r have "QuantileAgent_target example_QuantileAgent 7 1 True = Inr [7, 7]"
    by (simp add: eval_nat_numeral)
  moreover from r t have "QuantileAgent_target
      (example_QuantileAgent\<lparr>mean_exploration := True, active_quantile := 0\<rparr>) 7 1 False = Inr [7, 8]"
    by simp
  moreover from r i have "\<exists>a_next < length (q_values example_QuantileAgent ! 1).
         (\<forall>a < length (q_values example_QuantileAgent ! 1).
            np_mean (q_values example_QuantileAgent ! 1 ! a) \<le>
            np_mean (q_values example_QuantileAgent ! 1 ! a_next)) \<and>
         (\<forall>a < a_next. np_mean (q_values example_QuantileAgent ! 1 ! a) <
            np_mean (q_values example_QuantileAgent ! 1 ! a_next)) \<and>
         QuantileAgent_target example_QuantileAgent 7 1 False =
           Inr (map (\<lambda>x. discount example_QuantileAgent * x + 7)
                  (q_values example_QuantileAgent ! 1 ! a_next))"
    by blast
  ultimately show ?thesis using t by (intro conjI)
qed

subsection \<open>The quantile loss and its gradient\<close>

text \<open>A function that agrees with \<open>g\<close> on the left of \<open>x\<close> and with \<open>h\<close> on the right, both
  with derivative \<open>D\<close> at \<open>x\<close>, has derivative \<open>D\<close> at \<open>x\<close>.\<close>

lemma DERIV_glue:
  fixes f :: "real \<Rightarrow> real"
  assumes l: "(f has_real_derivative D) (at x within {..x})"
    and r: "(f has_real_derivative D) (at x within {x..})"
  shows "(f has_real_derivative D) (at x)"
proof -
  have "{..x} - {x} = {..<x}" "{x..} - {x} = {x<..}"
    by auto
  then have "at x within {..x} = at_left x" "at x within {x..} = at_right x"
    by (simp_all add: at_within_def)
  with l r have "((\<lambda>y. (f y - f x) / (y - x)) \<longlongrightarrow> D) (at_left x)"
    "((\<lambda>y. (f y - f x) / (y - x)) \<longlongrightarrow> D) (at_right x)"
    by (simp_all add: has_field_derivative_iff)
  then have "((\<lambda>y. (f y - f x) / (y - x)) \<longlongrightarrow> D) (at x)"
    by (rule filterlim_split_at)
  then show ?thesis
    using has_field_derivative_iff [of f D x UNIV] by simp
qed

lemma DERIV_glue_pieces:
  fixes f g h :: "real \<Rightarrow> real"
  assumes g: "(g has_real_derivative D) (at x)" and h: "(h has_real_derivative D) (at x)"
    and d: "0 < d"
    and fg: "\<And>y. y \<le> x \<Longrightarrow> \<bar>y - x\<bar> < d \<Longrightarrow> f y = g y"
    and fh: "\<And>y. x \<le> y \<Longrightarrow> \<bar>y - x\<bar> < d \<Longrightarrow> f y = h y"
  shows "(f has_real_derivative D) (at x)"
proof (rule DERIV_glue)
  have "(g has_real_derivative D) (at x within {..x})"
    using g by (rule has_field_derivative_at_within)
  then show "(f has_real_derivative D) (at x within {..x})"
    by (rule has_field_derivative_transform_within [OF _ d]) (auto simp: dist_real_def fg)
  have "(h has_real_derivative D) (at x within {x..})"
    using h by (rule has_field_derivative_at_within)
  then show "(f has_real_derivative D) (at x within {x..})"
    by (rule has_field_derivative_transform_within [OF _ d]) (auto simp: dist_real_def fh)
qed

lemma huber_backward_cases:
  "huber_backward x 1 = (if \<bar>x\<bar> < 1 then x else sgn x)"
  by (simp add: huber_backward_def)

lemma huber_simp: "huber x 1 = (if \<bar>x\<bar> < 1 then x\<^sup>2 / 2 else \<bar>x\<bar> - 1 / 2)"
  by (simp add: huber_def)

lemma DERIV_huber:
  "((\<lambda>x. huber x 1) has_real_derivative huber_backward x 1) (at x)"
proof -
  have sq: "((\<lambda>y. y\<^sup>2 / 2) has_real_derivative y) (at y)" for y :: real
    by (auto intro!: derivative_eq_intros)
  have up: "((\<lambda>y. y - 1 / 2) has_real_derivative 1) (at y)" for y :: real
    by (auto intro!: derivative_eq_intros)
  have dn: "((\<lambda>y. - y - 1 / 2) has_real_derivative - 1) (at y)" for y :: real
    by (auto intro!: derivative_eq_intros)
  consider "x < - 1" | "x = - 1" | "- 1 < x" "x < 1" | "x = 1" | "1 < x" by linarith
  then show ?thesis
  proof cases
    case 1
    have "((\<lambda>x. huber x 1) has_real_derivative - 1) (at x)"
      by (rule has_field_derivative_transform_within_open [OF dn, of "{..<- 1}"])
        (use 1 in \<open>auto simp: huber_simp\<close>)
    with 1 show ?thesis by (simp add: huber_backward_cases)
  next
    case 2
    have "((\<lambda>x. huber x 1) has_real_derivative - 1) (at (- 1))"
      by (rule DERIV_glue_pieces [OF dn sq zero_less_one]) (auto simp: huber_simp)
    with 2 show ?thesis by (simp add: huber_backward_cases)
  next
    case 3
    have "((\<lambda>x. huber x 1) has_real_derivative x) (at x)"
      by (rule has_field_derivative_transform_within_open [OF sq, of "{- 1 <..< 1}"])
        (use 3 in \<open>auto simp: huber_simp\<close>)
    moreover from 3 have "\<bar>x\<bar> < 1" by linarith
    ultimately show ?thesis by (simp add: huber_backward_cases)
  next
    case 4
    have "((\<lambda>x. huber x 1) has_real_derivative 1) (at 1)"
      by (rule DERIV_glue_pieces [OF sq up zero_less_one]) (auto simp: huber_simp)
    with 4 show ?thesis by (simp add: huber_backward_cases)
  next
    case 5
    have "((\<lambda>x. huber x 1) has_real_derivative 1) (at x)"
      by (rule has_field_derivative_transform_within_open [OF up, of "{1 <..}"])
        (use 5 in \<open>auto simp: huber_simp\<close>)
    with 5 show ?thesis by (simp add: huber_backward_cases)
  qed
qed


lemma DERIV_huber_shifted:
  "((\<lambda>y. huber (t - y) 1 * w) has_real_derivative - (w * huber_backward (t - q) 1)) (at q)"
proof -
  have "((\<lambda>y. t - y) has_real_derivative - 1) (at q)"
    by (auto intro!: derivative_eq_intros)
  from DERIV_chain' [OF this DERIV_huber]
  have "((\<lambda>y. huber (t - y) 1) has_real_derivative huber_backward (t - q) 1 * - 1) (at q)" .
  from DERIV_cmult_right [OF this, of w] show ?thesis
    by (simp add: mult.commute)
qed

lemma DERIV_loss_entry:
  "((\<lambda>y. loss_entry (t - y) tau) has_real_derivative
      - (\<bar>tau - (if t - q < 0 then 1 else 0)\<bar> * huber_backward (t - q) 1)) (at q)"
proof -
  consider "q < t" | "q = t" | "t < q" by linarith
  then show ?thesis
  proof cases
    case 1
    have "((\<lambda>y. loss_entry (t - y) tau) has_real_derivative
            - (\<bar>tau\<bar> * huber_backward (t - q) 1)) (at q)"
      by (rule has_field_derivative_transform_within_open
            [OF DERIV_huber_shifted, of "{..<t}"])
        (use 1 in \<open>auto simp: loss_entry_def\<close>)
    with 1 show ?thesis by simp
  next
    case 2
    have z: "huber_backward 0 1 = 0" "huber 0 1 = 0"
      by (simp_all add: huber_backward_cases huber_simp)
    have l: "((\<lambda>y. huber (t - y) 1 * \<bar>tau\<bar>) has_real_derivative 0) (at t)"
      using DERIV_huber_shifted [of t "\<bar>tau\<bar>" t] by (simp add: z)
    have r: "((\<lambda>y. huber (t - y) 1 * \<bar>tau - 1\<bar>) has_real_derivative 0) (at t)"
      using DERIV_huber_shifted [of t "\<bar>tau - 1\<bar>" t] by (simp add: z)
    have "((\<lambda>y. loss_entry (t - y) tau) has_real_derivative 0) (at t)"
    proof (rule DERIV_glue_pieces [OF l r zero_less_one])
      show "loss_entry (t - y) tau = huber (t - y) 1 * \<bar>tau\<bar>" if "y \<le> t" for y
        using that by (simp add: loss_entry_def)
      show "loss_entry (t - y) tau = huber (t - y) 1 * \<bar>tau - 1\<bar>" if "t \<le> y" for y
        using that by (cases "y = t") (auto simp: loss_entry_def z)
    qed
    with 2 show ?thesis by (simp add: z)
  next
    case 3
    have "((\<lambda>y. loss_entry (t - y) tau) has_real_derivative
            - (\<bar>tau - 1\<bar> * huber_backward (t - q) 1)) (at q)"
      by (rule has_field_derivative_transform_within_open
            [OF DERIV_huber_shifted, of "{t<..}"])
        (use 3 in \<open>auto simp: loss_entry_def\<close>)
    with 3 show ?thesis by simp
  qed
qed


lemma sum_list_map_nth:
  fixes f :: "'a \<Rightarrow> real"
  shows "sum_list (map f xs) = (\<Sum>i<length xs. f (xs ! i))"
  using sum_list_sum_nth [of "map f xs"] by (simp add: atLeast0LessThan)

lemma sum_list_concat:
  fixes xss :: "real list list"
  shows "sum_list (concat xss) = sum_list (map sum_list xss)"
  by (induction xss) simp_all

lemma pairwise_diff_nth:
  "i < length target \<Longrightarrow> j < length quantiles \<Longrightarrow>
     pairwise_diff target quantiles ! i ! j = target ! i - quantiles ! j"
  by (simp add: pairwise_diff_def)

lemma loss_matrix_nth:
  "i < length target \<Longrightarrow> j < length quantiles \<Longrightarrow> length cd = length quantiles \<Longrightarrow>
     loss_matrix (pairwise_diff target quantiles) cd ! i ! j =
       loss_entry (target ! i - quantiles ! j) (cd ! j)"
  by (simp add: loss_matrix_def pairwise_diff_def)

lemma loss_matrix_numel:
  assumes "length cd = length quantiles"
  shows "length (concat (loss_matrix (pairwise_diff target quantiles) cd)) =
           length target * length quantiles"
proof -
  have "map length (loss_matrix (pairwise_diff target quantiles) cd) =
          map (\<lambda>t. length quantiles) target"
    using assms by (simp add: loss_matrix_def pairwise_diff_def o_def)
  then show ?thesis
    by (simp add: length_concat sum_list_triv)
qed

lemma quantile_loss_sum:
  assumes "length cd = length quantiles"
  shows "quantile_loss target quantiles cd =
           (\<Sum>i<length target. \<Sum>j<length quantiles.
               loss_entry (target ! i - quantiles ! j) (cd ! j))
           / real (length target * length quantiles)"
proof -
  have row: "sum_list (map2 loss_entry (map (\<lambda>q. t - q) quantiles) cd) =
          (\<Sum>j<length quantiles. loss_entry (t - quantiles ! j) (cd ! j))" for t
  proof -
    have "sum_list (map2 loss_entry (map (\<lambda>q. t - q) quantiles) cd) =
          (\<Sum>j<length (map2 loss_entry (map (\<lambda>q. t - q) quantiles) cd).
              map2 loss_entry (map (\<lambda>q. t - q) quantiles) cd ! j)"
      using sum_list_sum_nth [of "map2 loss_entry (map (\<lambda>q. t - q) quantiles) cd"]
      by (simp add: atLeast0LessThan)
    also have "\<dots> = (\<Sum>j<length quantiles. loss_entry (t - quantiles ! j) (cd ! j))"
      using assms by (intro sum.cong) simp_all
    finally show ?thesis .
  qed
  have "sum_list (concat (loss_matrix (pairwise_diff target quantiles) cd)) =
        sum_list (map (\<lambda>t. \<Sum>j<length quantiles. loss_entry (t - quantiles ! j) (cd ! j)) target)"
    by (simp add: sum_list_concat loss_matrix_def pairwise_diff_def o_def row)
  also have "\<dots> = (\<Sum>i<length target. \<Sum>j<length quantiles.
               loss_entry (target ! i - quantiles ! j) (cd ! j))"
    by (rule sum_list_map_nth)
  finally show ?thesis
    using loss_matrix_numel [OF assms, of target]
    by (simp add: quantile_loss_def tensor_mean_def)
qed

lemma loss_backward_nth:
  assumes "length cd = length quantiles" and "j < length quantiles"
  shows "loss_backward target quantiles cd ! j =
           (\<Sum>i<length target.
               - (\<bar>cd ! j - (if target ! i - quantiles ! j < 0 then 1 else 0)\<bar>
                  * huber_backward (target ! i - quantiles ! j) 1))
           / real (length target * length quantiles)"
proof -
  let ?n = "real (length target * length quantiles)"
  have "loss_backward target quantiles cd ! j =
          sum_list (map (\<lambda>t. (1 / ?n) * \<bar>cd ! j - (if t - quantiles ! j < 0 then 1 else 0)\<bar>
                                * huber_backward (t - quantiles ! j) 1 * (- 1)) target)"
    using assms loss_matrix_numel [OF assms(1), of target]
    by (simp add: loss_backward_def Let_def)
  also have "\<dots> = (\<Sum>i<length target.
       (1 / ?n) * \<bar>cd ! j - (if target ! i - quantiles ! j < 0 then 1 else 0)\<bar>
          * huber_backward (target ! i - quantiles ! j) 1 * (- 1))"
    by (rule sum_list_map_nth)
  also have "\<dots> = (\<Sum>i<length target.
               - (\<bar>cd ! j - (if target ! i - quantiles ! j < 0 then 1 else 0)\<bar>
                  * huber_backward (target ! i - quantiles ! j) 1)) / ?n"
    by (simp add: sum_divide_distrib)
  finally show ?thesis .
qed

lemma DERIV_quantile_loss:
  assumes len: "length cd = length quantiles" and j: "j < length quantiles"
  shows "((\<lambda>x. quantile_loss target (quantiles[j := x]) cd) has_real_derivative
            loss_backward target quantiles cd ! j) (at (quantiles ! j))"
proof -
  let ?N = "length quantiles" and ?M = "length target"
  let ?D = "\<lambda>i. - (\<bar>cd ! j - (if target ! i - quantiles ! j < 0 then 1 else 0)\<bar>
                  * huber_backward (target ! i - quantiles ! j) 1)"
  have entry: "((\<lambda>x. loss_entry (target ! i - quantiles[j := x] ! k) (cd ! k))
                 has_real_derivative (if k = j then ?D i else 0)) (at (quantiles ! j))"
    if "k < ?N" for i k
  proof (cases "k = j")
    case True
    with j show ?thesis using DERIV_loss_entry [of "target ! i" "cd ! j" "quantiles ! j"]
      by simp
  next
    case False
    then show ?thesis by simp
  qed
  have "((\<lambda>x. \<Sum>i<?M. \<Sum>k<?N. loss_entry (target ! i - quantiles[j := x] ! k) (cd ! k))
           has_real_derivative (\<Sum>i<?M. \<Sum>k<?N. if k = j then ?D i else 0))
          (at (quantiles ! j))"
    by (intro DERIV_sum entry) simp
  moreover have "(\<Sum>i<?M. \<Sum>k<?N. if k = j then ?D i else 0) = (\<Sum>i<?M. ?D i)"
    using j by (simp add: sum.delta)
  ultimately have "((\<lambda>x. (\<Sum>i<?M. \<Sum>k<?N.
            loss_entry (target ! i - quantiles[j := x] ! k) (cd ! k)) / real (?M * ?N))
           has_real_derivative (\<Sum>i<?M. ?D i) / real (?M * ?N)) (at (quantiles ! j))"
    using DERIV_cdivide by fastforce
  then show ?thesis
    using len by (simp add: quantile_loss_sum loss_backward_nth [OF len j])
qed


lemma example_loss_backward:
  "loss_backward [0, 1] [0, 1] [1 / 4, 3 / 4] = [- (1 / 16), 1 / 16]"
  by (simp add: eval_simps)

lemma loss_entry_zero: "loss_entry 0 tau = 0"
  by (simp add: loss_entry_def huber_def)

lemma huber_backward_zero: "huber_backward 0 1 = 0"
  by (simp add: huber_backward_def)

lemma map2_sub_zero:
  fixes xs gs :: "real list"
  shows "length gs = length xs \<Longrightarrow> \<forall>g \<in> set gs. g = 0 \<Longrightarrow> map2 (\<lambda>x g. x - c * g) xs gs = xs"
proof (induction xs arbitrary: gs)
  case Nil
  then show ?case by simp
next
  case (Cons x xs)
  then show ?case by (cases gs) simp_all
qed

text \<open>
  C1: in an iteration of \<open>QuantileAgent.episode\<close> with \<open>N = num_quantiles\<close> entries in the
  target, the current quantile vector and \<open>cumulative_density\<close>, the update forms the
  \<open>N\<close> by \<open>N\<close> matrix \<open>diff[i, j] = target[i] - quantiles[j]\<close>, the loss matrix
  \<open>huber(diff[i, j]) * |tau[j] - 1{diff[i, j] < 0}|\<close> with \<open>tau\<close> running along the axis
  \<open>j\<close> of the current quantiles, and the total loss as the mean of all entries; what
  \<open>loss.backward()\<close> yields at position \<open>j\<close> is the partial derivative of this total loss
  with respect to \<open>quantiles[j]\<close>; and the new \<open>Q(s, a)\<close> is \<open>Q(s, a)\<close> minus \<open>lr\<close> times
  that gradient, entry by entry. The loop goes on with the updated agent.
\<close>

theorem QuantileAgent_update_rule:
  assumes act: "QuantileAgent_act ag s False (rng t) = Inr a"
    and st: "step (env ag) (int a) (randn (rng t)) = (c, Some (next_state, reward, dn))"
    and si: "np_index (length (q_values ag)) s = Inr si"
    and ai: "np_index (length (q_values ag ! si)) (int a) = Inr ai"
    and tg: "QuantileAgent_target ag reward next_state dn = Inr target"
    and qs: "quantiles = q_values ag ! si ! ai"
    and cd: "cd = cumulative_density ag"
    and N: "N = num_quantiles ag" "0 < N"
    and len: "length quantiles = N" "length cd = N" "length target = N"
  shows "\<exists>ag'. QuantileAgent_update (ag\<lparr>env := c, total_steps := total_steps ag + 1\<rparr>)
                 s a reward next_state dn = Inr ag' \<and>
           QuantileAgent_loop ag s total_rewards rng t =
             (if dn then Inr (ag', total_rewards + reward, Suc t)
              else QuantileAgent_loop ag' next_state (total_rewards + reward) rng (Suc t)) \<and>
           (\<forall>i<N. \<forall>j<N.
              pairwise_diff target quantiles ! i ! j = target ! i - quantiles ! j \<and>
              loss_matrix (pairwise_diff target quantiles) cd ! i ! j =
                huber (target ! i - quantiles ! j) 1 *
                  \<bar>cd ! j - (if target ! i - quantiles ! j < 0 then 1 else 0)\<bar>) \<and>
           quantile_loss target quantiles cd =
             (\<Sum>i<N. \<Sum>j<N. loss_matrix (pairwise_diff target quantiles) cd ! i ! j)
               / real (N * N) \<and>
           (\<forall>j<N. ((\<lambda>x. quantile_loss target (quantiles[j := x]) cd) has_real_derivative
                      loss_backward target quantiles cd ! j) (at (quantiles ! j))) \<and>
           length (q_values ag' ! si ! ai) = N \<and>
           (\<forall>j<N. q_values ag' ! si ! ai ! j =
                      quantiles ! j - lr ag * loss_backward target quantiles cd ! j)"
proof -
  let ?ag1 = "ag\<lparr>env := c, total_steps := total_steps ag + 1\<rparr>"
  let ?grad = "loss_backward target quantiles cd"
  let ?new = "map2 (\<lambda>x g. x - lr ag * g) quantiles ?grad"
  let ?ag' = "?ag1\<lparr>q_values := (q_values ag)[si := (q_values ag ! si)[ai := ?new]]\<rparr>"
  have lens: "si < length (q_values ag)" "ai < length (q_values ag ! si)"
    using si ai by (auto dest: np_index_less)
  have lcd: "length cd = length quantiles"
    using len by simp
  have lgrad: "length ?grad = N"
    using len by (simp add: loss_backward_def Let_def)
  have "QuantileAgent_target ?ag1 reward next_state dn =
        QuantileAgent_target ag reward next_state dn"
    by (simp add: QuantileAgent_target_def Let_def cong: sum.case_cong)
  with tg have tg1: "QuantileAgent_target ?ag1 reward next_state dn = Inr target"
    by simp
  have up: "QuantileAgent_update ?ag1 s a reward next_state dn = Inr ?ag'"
    using si ai by (simp add: QuantileAgent_update_def tg1 Let_def qs cd)
  have loop: "QuantileAgent_loop ag s total_rewards rng t =
         (if dn then Inr (?ag', total_rewards + reward, Suc t)
          else QuantileAgent_loop ?ag' next_state (total_rewards + reward) rng (Suc t))"
    by (subst QuantileAgent_loop.simps) (simp add: act st up)
  have entries: "\<forall>i<N. \<forall>j<N.
              pairwise_diff target quantiles ! i ! j = target ! i - quantiles ! j \<and>
              loss_matrix (pairwise_diff target quantiles) cd ! i ! j =
                huber (target ! i - quantiles ! j) 1 *
                  \<bar>cd ! j - (if target ! i - quantiles ! j < 0 then 1 else 0)\<bar>"
    using len by (simp add: pairwise_diff_nth loss_matrix_nth loss_entry_def)
  have mean: "quantile_loss target quantiles cd =
             (\<Sum>i<N. \<Sum>j<N. loss_matrix (pairwise_diff target quantiles) cd ! i ! j)
               / real (N * N)"
    using len by (simp add: quantile_loss_sum [OF lcd] loss_matrix_nth)
  have deriv: "\<forall>j<N. ((\<lambda>x. quantile_loss target (quantiles[j := x]) cd) has_real_derivative
                      loss_backward target quantiles cd ! j) (at (quantiles ! j))"
    using DERIV_quantile_loss [OF lcd] len by simp
  have step: "\<forall>j<N. q_values ?ag' ! si ! ai ! j = quantiles ! j - lr ag * ?grad ! j"
    using lens len lgrad by simp
  have lnew: "length (q_values ?ag' ! si ! ai) = N"
    using lens len lgrad by simp
  from up loop entries mean deriv lnew step show ?thesis
    by blast
qed


theorem QuantileAgent_update_rule_witness:
  "\<exists>ag'. QuantileAgent_update
            (example_QuantileAgent\<lparr>env := (Chain_init 2 0 1)\<lparr>state := 1\<rparr>, total_steps := 1\<rparr>)
            0 0 0 1 False = Inr ag' \<and>
     QuantileAgent_loop example_QuantileAgent 0 0 (\<lambda>t. quiet_draw) 0 =
       QuantileAgent_loop ag' 1 0 (\<lambda>t. quiet_draw) 1 \<and>
     pairwise_diff [0, 1] [0, 1] ! 0 ! 1 = - 1 \<and>
     quantile_loss [0, 1] [0, 1] [1 / 4, 3 / 4] =
       (\<Sum>i<2. \<Sum>j<2. loss_matrix (pairwise_diff [0, 1] [0, 1]) [1 / 4, 3 / 4] ! i ! j) / real (2 * 2) \<and>
     ((\<lambda>x. quantile_loss [0, 1] ([0, 1][0 := x]) [1 / 4, 3 / 4])
         has_real_derivative - (1 / 16)) (at 0) \<and>
     q_values ag' ! 0 ! 0 ! 0 = 1 / 160 \<and>
     q_values ag' ! 0 ! 0 ! 1 = 159 / 160"
proof -
  have act: "QuantileAgent_act example_QuantileAgent 0 False quiet_draw = Inr 0"
    by (simp add: eval_simps)
  have st: "step (env example_QuantileAgent) (int 0) (randn quiet_draw) =
              ((Chain_init 2 0 1)\<lparr>state := 1\<rparr>, Some (1, 0, False))"
    by (simp add: eval_simps)
  have tg: "QuantileAgent_target example_QuantileAgent 0 1 False = Inr [0, 1]"
    by (simp add: eval_simps)
  have ix: "np_index (length (q_values example_QuantileAgent)) 0 = Inr 0"
    "np_index (length (q_values example_QuantileAgent ! 0)) (int 0) = Inr 0"
    by (simp_all add: np_index_def)
  from QuantileAgent_update_rule [where ag = example_QuantileAgent and rng = "\<lambda>t. quiet_draw"
      and t = 0 and total_rewards = 0 and N = 2 and quantiles = "[0, 1]" and cd = "[1 / 4, 3 / 4]",
      OF act st ix tg]
  obtain ag' where
    up: "QuantileAgent_update
            (example_QuantileAgent\<lparr>env := (Chain_init 2 0 1)\<lparr>state := 1\<rparr>, total_steps := 1\<rparr>)
            0 0 0 1 False = Inr ag'"
    and loop: "QuantileAgent_loop example_QuantileAgent 0 0 (\<lambda>t. quiet_draw) 0 =
       QuantileAgent_loop ag' 1 0 (\<lambda>t. quiet_draw) 1"
    and entries: "\<forall>i<2. \<forall>j<2.
              pairwise_diff [0, 1] [0, 1] ! i ! j = [0, 1 :: real] ! i - [0, 1] ! j \<and>
              loss_matrix (pairwise_diff [0, 1] [0, 1]) [1 / 4, 3 / 4] ! i ! j =
                huber ([0, 1] ! i - [0, 1] ! j) 1 *
                  \<bar>[1 / 4, 3 / 4] ! j - (if [0, 1 :: real] ! i - [0, 1] ! j < 0 then 1 else 0)\<bar>"
    and mean: "quantile_loss [0, 1] [0, 1] [1 / 4, 3 / 4] =
       (\<Sum>i<2. \<Sum>j<2. loss_matrix (pairwise_diff [0, 1] [0, 1]) [1 / 4, 3 / 4] ! i ! j) / real (2 * 2)"
    and deriv: "\<forall>j<2. ((\<lambda>x. quantile_loss [0, 1] ([0, 1][j := x]) [1 / 4, 3 / 4]) has_real_derivative
                      loss_backward [0, 1] [0, 1] [1 / 4, 3 / 4] ! j) (at ([0, 1] ! j))"
    and new: "\<forall>j<2. q_values ag' ! 0 ! 0 ! j =
                      [0, 1] ! j - lr example_QuantileAgent * loss_backward [0, 1] [0, 1] [1 / 4, 3 / 4] ! j"
    by auto
  from entries [rule_format, of 0 1] have e: "pairwise_diff [0, 1] [0, 1 :: real] ! 0 ! 1 = - 1"
    by simp
  from deriv [rule_format, of 0] have d: "((\<lambda>x. quantile_loss [0, 1] ([0, 1][0 := x]) [1 / 4, 3 / 4])
         has_real_derivative - (1 / 16)) (at 0)"
    by (simp add: example_loss_backward)
  from new [rule_format, of 0] new [rule_format, of 1]
  have n: "q_values ag' ! 0 ! 0 ! 0 = 1 / 160" "q_values ag' ! 0 ! 0 ! 1 = 159 / 160"
    by (simp_all add: example_loss_backward)
  from up loop e mean d n show ?thesis by blast
qed


text \<open>
  C4 as stated (when the target vector equals the current quantile vector, the loss is 0
  and the update changes nothing) does not hold, because the differences are taken over
  all pairs: with target and current vector both \<open>[0, 1]\<close> the loss is \<open>1 / 16\<close> and the update
  moves \<open>Q(s, a)\<close> to \<open>[1 / 160, 159 / 160]\<close>.
\<close>

theorem zero_diff_counterexample:
  "QuantileAgent_target example_QuantileAgent 0 1 False =
     Inr (q_values example_QuantileAgent ! 0 ! 0) \<and>
   quantile_loss (q_values example_QuantileAgent ! 0 ! 0) (q_values example_QuantileAgent ! 0 ! 0)
     (cumulative_density example_QuantileAgent) = 1 / 16 \<and>
   QuantileAgent_update example_QuantileAgent 0 0 0 1 False =
     Inr (example_QuantileAgent\<lparr>q_values :=
            [[[1 / 160, 159 / 160], [0, 0]], [[0, 1], [- 5, - 5]]]\<rparr>) \<and>
   q_values example_QuantileAgent ! 0 ! 0 = [0, 1]"
  by (simp add: eval_simps)

text \<open>
  C4, amended: when every pairwise difference \<open>target[i] - quantiles[j]\<close> is zero (target
  and current vector hold one common value in all entries, as in a terminal transition
  with reward \<open>r\<close> on \<open>Q(s, a) = [r, ..., r]\<close>), the total loss is 0 and the update returns the
  agent unchanged.
\<close>

theorem zero_pairwise_diff_fixed_point:
  assumes tg: "QuantileAgent_target ag reward next_state dn = Inr target"
    and si: "np_index (length (q_values ag)) s = Inr si"
    and ai: "np_index (length (q_values ag ! si)) (int a) = Inr ai"
    and qs: "quantiles = q_values ag ! si ! ai"
    and len: "length (cumulative_density ag) = length quantiles"
    and ne: "target \<noteq> []" "quantiles \<noteq> []"
    and zero: "\<forall>t \<in> set target. \<forall>q \<in> set quantiles. t - q = 0"
  shows "quantile_loss target quantiles (cumulative_density ag) = 0 \<and>
         QuantileAgent_update ag s a reward next_state dn = Inr ag"
proof -
  let ?cd = "cumulative_density ag"
  have z: "target ! i - quantiles ! j = 0" if "i < length target" "j < length quantiles" for i j
    using zero that by simp
  have "quantile_loss target quantiles ?cd =
          (\<Sum>i<length target. \<Sum>j<length quantiles.
               loss_entry (target ! i - quantiles ! j) (?cd ! j))
           / real (length target * length quantiles)"
    by (rule quantile_loss_sum [OF len])
  also have "\<dots> = 0"
    by (simp add: z loss_entry_zero)
  finally have loss: "quantile_loss target quantiles ?cd = 0" .
  have g0: "loss_backward target quantiles ?cd ! j = 0" if "j < length quantiles" for j
    using that by (simp add: loss_backward_nth [OF len that] z huber_backward_zero)
  have lg: "length (loss_backward target quantiles ?cd) = length quantiles"
    using len by (simp add: loss_backward_def Let_def)
  have "\<forall>g \<in> set (loss_backward target quantiles ?cd). g = 0"
    using g0 lg by (auto simp: in_set_conv_nth)
  then have same: "map2 (\<lambda>x g. x - lr ag * g) quantiles (loss_backward target quantiles ?cd) = quantiles"
    using lg by (intro map2_sub_zero) simp_all
  have "QuantileAgent_update ag s a reward next_state dn = Inr ag"
    using si ai by (simp add: QuantileAgent_update_def tg Let_def qs [symmetric] same, simp add: qs)
  with loss show ?thesis by simp
qed

theorem zero_pairwise_diff_fixed_point_witness:
  "QuantileAgent_target settled_QuantileAgent 3 (- 1) True = Inr [3, 3] \<and>
   q_values settled_QuantileAgent ! 0 ! 1 = [3, 3] \<and>
   quantile_loss [3, 3] [3, 3] (cumulative_density settled_QuantileAgent) = 0 \<and>
   QuantileAgent_update settled_QuantileAgent 0 1 3 (- 1) True = Inr settled_QuantileAgent"
proof -
  have tg: "QuantileAgent_target settled_QuantileAgent 3 (- 1) True = Inr [3, 3]"
    by (simp add: eval_simps)
  have ix: "np_index (length (q_values settled_QuantileAgent)) 0 = Inr 0"
    "np_index (length (q_values settled_QuantileAgent ! 0)) (int 1) = Inr 1"
    by (simp_all add: np_index_def)
  have qs: "[3, 3] = q_values settled_QuantileAgent ! 0 ! 1"
    by simp
  from zero_pairwise_diff_fixed_point [OF tg ix qs] tg qs show ?thesis
    by simp
qed

subsection \<open>What an update leaves alone\<close>

lemma QAgent_update_frame:
  assumes "QAgent_update ag s a r ns dn = Inr ag'"
  shows "\<exists>si ai. np_index (length (q_values ag)) s = Inr si \<and>
           np_index (length (q_values ag ! si)) (int a) = Inr ai \<and>
           (\<forall>s' a'. (s', a') \<noteq> (si, ai) \<longrightarrow> q_values ag' ! s' ! a' = q_values ag ! s' ! a')"
proof -
  from assms obtain si ai v where
    si: "np_index (length (q_values ag)) s = Inr si"
    and ai: "np_index (length (q_values ag ! si)) (int a) = Inr ai"
    and q: "q_values ag' = (q_values ag)[si := (q_values ag ! si)[ai := v]]"
    by (auto simp: QAgent_update_def Let_def split: sum.splits if_splits)
  have "q_values ag' ! s' ! a' = q_values ag ! s' ! a'" if "(s', a') \<noteq> (si, ai)" for s' a'
  proof (cases "s' = si")
    case True
    with that have "a' \<noteq> ai" by simp
    with True show ?thesis
      using np_index_less[OF si] by (simp add: q)
  next
    case False
    then show ?thesis by (simp add: q)
  qed
  with si ai show ?thesis by blast
qed

lemma QuantileAgent_update_frame:
  assumes "QuantileAgent_update ag s a r ns dn = Inr ag'"
  shows "\<exists>si ai. np_index (length (q_values ag)) s = Inr si \<and>
           np_index (length (q_values ag ! si)) (int a) = Inr ai \<and>
           (\<forall>s' a'. (s', a') \<noteq> (si, ai) \<longrightarrow> q_values ag' ! s' ! a' = q_values ag ! s' ! a') \<and>
           cumulative_density ag' = cumulative_density ag"
proof -
  from assms obtain si ai v where
    si: "np_index (length (q_values ag)) s = Inr si"
    and ai: "np_index (length (q_values ag ! si)) (int a) = Inr ai"
    and q: "q_values ag' = (q_values ag)[si := (q_values ag ! si)[ai := v]]"
    and cd: "cumulative_density ag' = cumulative_density ag"
    by (auto simp: QuantileAgent_update_def Let_def split: sum.splits if_splits)
  have "q_values ag' ! s' ! a' = q_values ag ! s' ! a'" if "(s', a') \<noteq> (si, ai)" for s' a'
  proof (cases "s' = si")
    case True
    with that have "a' \<noteq> ai" by simp
    with True show ?thesis
      using np_index_less[OF si] by (simp add: q)
  next
    case False
    then show ?thesis by (simp add: q)
  qed
  with si ai cd show ?thesis by blast
qed

lemma QuantileAgent_loop_density:
  "QuantileAgent_loop ag s tr rng t = Inr (ag', tr', t') \<Longrightarrow>
     cumulative_density ag' = cumulative_density ag"
proof (induction ag s tr rng t rule: QuantileAgent_loop.induct)
  case (1 ag s total_rewards rng t)
  from "1.prems" obtain a c ns reward dn ag1 where
    act: "QuantileAgent_act ag s False (rng t) = Inr a"
    and st: "step (env ag) (int a) (randn (rng t)) = (c, Some (ns, reward, dn))"
    and up: "QuantileAgent_update (ag\<lparr>env := c, total_steps := total_steps ag + 1\<rparr>) s a reward ns dn = Inr ag1"
    and res: "(if dn then Inr (ag1, total_rewards + reward, Suc t)
              else QuantileAgent_loop ag1 ns (total_rewards + reward) rng (Suc t)) = Inr (ag', tr', t')"
    by (subst (asm) QuantileAgent_loop.simps) (auto split: sum.splits prod.splits option.splits)
  from QuantileAgent_update_frame[OF up] have cd: "cumulative_density ag1 = cumulative_density ag"
    by auto
  show ?case
  proof (cases dn)
    case True
    with res cd show ?thesis by simp
  next
    case False
    with res have "QuantileAgent_loop ag1 ns (total_rewards + reward) rng (Suc t) = Inr (ag', tr', t')" by simp
    from "1.IH"[OF act st[symmetric] refl refl refl up False this] cd show ?thesis by simp
  qed
qed

lemma QuantileAgent_episode_density:
  "QuantileAgent_episode ag rng t = Inr (ag', r, t') \<Longrightarrow>
     cumulative_density ag' = cumulative_density ag"
  by (auto simp: QuantileAgent_episode_def reset_def dest: QuantileAgent_loop_density)

lemma run_episodes_loop_density:
  "run_episodes_loop ag max_steps ep rng t = Inr (ag', v) \<Longrightarrow> ag = AgentQuantile a \<Longrightarrow>
     \<exists>a'. ag' = AgentQuantile a' \<and> cumulative_density a' = cumulative_density a"
proof (induction ag max_steps ep rng t arbitrary: a rule: run_episodes_loop.induct)
  case (1 ag max_steps ep rng t)
  from "1.prems" obtain a1 r t1 optimal where
    epi: "episode ag rng t = Inr (a1, r, t1)"
    and chk: "check_optimality (agent_q_values a1) = Inr optimal"
    and res: "(if optimal then Inr (a1, agent_total_steps a1)
               else if agent_total_steps a1 > max_steps then
                 (let ag'' = set_total_steps a1 max_steps in Inr (ag'', agent_total_steps ag''))
               else run_episodes_loop a1 max_steps (Suc ep) rng t1) = Inr (ag', v)"
    by (subst (asm) run_episodes_loop.simps) (auto split: sum.splits prod.splits)
  from epi "1.prems"(2) obtain b where b: "a1 = AgentQuantile b"
    and cd: "cumulative_density b = cumulative_density a"
    by (auto simp: episode_def split: sum.splits dest: QuantileAgent_episode_density)
  show ?case
  proof (cases "optimal \<or> max_steps < agent_total_steps a1")
    case True
    with res b cd show ?thesis
      by (auto simp: Let_def set_total_steps_def split: if_splits)
  next
    case False
    then have no: "\<not> optimal" "\<not> max_steps < agent_total_steps a1" by simp_all
    with res have rec: "run_episodes_loop a1 max_steps (Suc ep) rng t1 = Inr (ag', v)" by simp
    from "1.IH"[OF epi refl refl chk no rec b] cd show ?thesis by simp
  qed
qed

text \<open>
  C10: the learning update of either agent changes the table only at the slot of the
  transition's state and action: every entry at another pair of state and action is as
  before. The update of the quantile agent, a whole episode and a whole run of
  \<open>run_episodes\<close> leave \<open>cumulative_density\<close> as the constructor set it.
\<close>

theorem update_frame:
  "(QAgent_update qa s a r ns dn = Inr qa' \<longrightarrow>
      (\<exists>si ai. np_index (length (q_values qa)) s = Inr si \<and>
           np_index (length (q_values qa ! si)) (int a) = Inr ai \<and>
           (\<forall>s' a'. (s', a') \<noteq> (si, ai) \<longrightarrow> q_values qa' ! s' ! a' = q_values qa ! s' ! a'))) \<and>
   (QuantileAgent_update ag s a r ns dn = Inr ag' \<longrightarrow>
      (\<exists>si ai. np_index (length (q_values ag)) s = Inr si \<and>
           np_index (length (q_values ag ! si)) (int a) = Inr ai \<and>
           (\<forall>s' a'. (s', a') \<noteq> (si, ai) \<longrightarrow> q_values ag' ! s' ! a' = q_values ag ! s' ! a') \<and>
           cumulative_density ag' = cumulative_density ag)) \<and>
   (QuantileAgent_episode ag rng t = Inr (ag'', tr, t') \<longrightarrow>
      cumulative_density ag'' = cumulative_density ag) \<and>
   (run_episodes (AgentQuantile ag) max_steps rng = Inr (fin, v) \<longrightarrow>
      (\<exists>a'. fin = AgentQuantile a' \<and> cumulative_density a' = cumulative_density ag))"
  using QAgent_update_frame [of qa s a r ns dn qa'] QuantileAgent_update_frame [of ag s a r ns dn ag']
    QuantileAgent_episode_density [of ag rng t ag'' tr t']
    run_episodes_loop_density [of "AgentQuantile ag" max_steps 0 rng 0 fin v ag]
  unfolding run_episodes_def by blast


theorem update_frame_witness:
  "QAgent_update example_QAgent 0 0 4 1 False =
     Inr (example_QAgent\<lparr>q_values := [[49 / 20, 1], [5, 3]]\<rparr>) \<and>
   (\<exists>si ai. np_index (length (q_values example_QAgent)) 0 = Inr si \<and>
       np_index (length (q_values example_QAgent ! si)) (int 0) = Inr ai \<and>
       (\<forall>s' a'. (s', a') \<noteq> (si, ai) \<longrightarrow>
          q_values (example_QAgent\<lparr>q_values := [[49 / 20, 1], [5, 3]]\<rparr>) ! s' ! a' =
          q_values example_QAgent ! s' ! a')) \<and>
   QuantileAgent_update example_QuantileAgent 0 0 0 1 False =
     Inr (example_QuantileAgent\<lparr>q_values := [[[1 / 160, 159 / 160], [0, 0]], [[0, 1], [- 5, - 5]]]\<rparr>) \<and>
   (\<exists>si ai. np_index (length (q_values example_QuantileAgent)) 0 = Inr si \<and>
       np_index (length (q_values example_QuantileAgent ! si)) (int 0) = Inr ai \<and>
       (\<forall>s' a'. (s', a') \<noteq> (si, ai) \<longrightarrow>
          q_values (example_QuantileAgent\<lparr>q_values :=
             [[[1 / 160, 159 / 160], [0, 0]], [[0, 1], [- 5, - 5]]]\<rparr>) ! s' ! a' =
          q_values example_QuantileAgent ! s' ! a') \<and>
       cumulative_density (example_QuantileAgent\<lparr>q_values :=
             [[[1 / 160, 159 / 160], [0, 0]], [[0, 1], [- 5, - 5]]]\<rparr>) =
       cumulative_density example_QuantileAgent) \<and>
   (\<exists>a' v. run_episodes (AgentQuantile example_QuantileAgent) 100 (\<lambda>t. quiet_draw) =
        Inr (AgentQuantile a', v) \<and>
      cumulative_density a' = cumulative_density example_QuantileAgent)"
proof -
  let ?qa' = "example_QAgent\<lparr>q_values := [[49 / 20, 1], [5, 3]]\<rparr>"
  let ?ag' = "example_QuantileAgent\<lparr>q_values :=
                [[[1 / 160, 159 / 160], [0, 0]], [[0, 1], [- 5, - 5]]]\<rparr>"
  let ?fin = "example_QuantileAgent\<lparr>env := (Chain_init 2 0 1)\<lparr>state := 2\<rparr>,
            q_values := [[[1 / 160, 159 / 160], [0, 0]], [[1 / 80, 83 / 80], [- 5, - 5]]],
            total_steps := 2\<rparr>"
  note q = update_frame [of example_QAgent 0 0 4 1 False ?qa' example_QuantileAgent ?ag'
      "\<lambda>t. quiet_draw" 0 ?fin 10 2 100 "AgentQuantile ?fin" 2]
  note d = update_frame [of example_QAgent 0 0 0 1 False ?qa' example_QuantileAgent ?ag'
      "\<lambda>t. quiet_draw" 0 ?fin 10 2 100 "AgentQuantile ?fin" 2]
  from q example_QAgent_update have 1:
    "\<exists>si ai. np_index (length (q_values example_QAgent)) 0 = Inr si \<and>
       np_index (length (q_values example_QAgent ! si)) (int 0) = Inr ai \<and>
       (\<forall>s' a'. (s', a') \<noteq> (si, ai) \<longrightarrow>
          q_values ?qa' ! s' ! a' = q_values example_QAgent ! s' ! a')"
    by blast
  from d example_QuantileAgent_update have 2:
    "\<exists>si ai. np_index (length (q_values example_QuantileAgent)) 0 = Inr si \<and>
       np_index (length (q_values example_QuantileAgent ! si)) (int 0) = Inr ai \<and>
       (\<forall>s' a'. (s', a') \<noteq> (si, ai) \<longrightarrow>
          q_values ?ag' ! s' ! a' = q_values example_QuantileAgent ! s' ! a') \<and>
       cumulative_density ?ag' = cumulative_density example_QuantileAgent"
    by blast
  from d example_QuantileAgent_run have 3:
    "\<exists>a' v. run_episodes (AgentQuantile example_QuantileAgent) 100 (\<lambda>t. quiet_draw) =
        Inr (AgentQuantile a', v) \<and>
      cumulative_density a' = cumulative_density example_QuantileAgent"
    by blast
  from example_QAgent_update example_QuantileAgent_update 1 2 3 show ?thesis
    by (intro conjI)
qed

subsection \<open>Convergence check\<close>

text \<open>
  C6: for a table with at least the two action columns (and, when it is
  three-dimensional, non-empty quantile vectors), \<open>check_optimality\<close> returns true
  exactly when \<open>Q(s, 0) > Q(s, 1)\<close> holds strictly in every state \<open>s\<close>; a three-dimensional
  table is first collapsed by the mean over the quantile axis. A state with equal values
  makes the result false.
\<close>

theorem check_optimality_iff:
  "((\<forall>row \<in> set m. 2 \<le> length row) \<longrightarrow>
      check_optimality (Array2 m) = Inr (\<forall>s < length m. m ! s ! 1 < m ! s ! 0)) \<and>
   ((\<forall>rows \<in> set t. 2 \<le> length rows \<and> (\<forall>row \<in> set rows. row \<noteq> [])) \<longrightarrow>
      check_optimality (Array3 t) =
        Inr (\<forall>s < length t. np_mean (t ! s ! 1) < np_mean (t ! s ! 0)))"
proof -
  have two: "check_optimality (Array2 m) = Inr (\<forall>s < length m. m ! s ! 1 < m ! s ! 0)"
    if "\<forall>row \<in> set m. 2 \<le> length row" for m
  proof -
    from that have "\<not> list_ex (\<lambda>row. length row < 2) m"
      by (auto simp: list_ex_iff)
    then show ?thesis
      by (simp add: check_optimality_def Let_def o_def count_true_all all_set_conv_all_nth)
  qed
  have three: "check_optimality (Array3 t) =
        Inr (\<forall>s < length t. np_mean (t ! s ! 1) < np_mean (t ! s ! 0))"
    if h': "\<forall>rows \<in> set t. 2 \<le> length rows \<and> (\<forall>row \<in> set rows. row \<noteq> [])"
  proof -
    from h' have h: "\<forall>rows \<in> set t. 2 \<le> length rows" by blast
    have "check_optimality (Array3 t) = check_optimality (Array2 (map (map np_mean) t))"
      by (simp add: check_optimality_def)
    also have "\<dots> = Inr (\<forall>s < length (map (map np_mean) t).
                      map (map np_mean) t ! s ! 1 < map (map np_mean) t ! s ! 0)"
      using h by (intro two) auto
    also have "\<dots> = Inr (\<forall>s < length t. np_mean (t ! s ! 1) < np_mean (t ! s ! 0))"
    proof -
      have "map (map np_mean) t ! s ! 1 = np_mean (t ! s ! 1) \<and>
            map (map np_mean) t ! s ! 0 = np_mean (t ! s ! 0)" if "s < length t" for s
      proof -
        from h that have "2 \<le> length (t ! s)" by simp
        then have "0 < length (t ! s)" "1 < length (t ! s)" by linarith+
        with that show ?thesis by simp
      qed
      then show ?thesis by simp
    qed
    finally show ?thesis .
  qed
  from two three show ?thesis by blast
qed

theorem check_optimality_iff_witness:
  "check_optimality (Array2 [[2, 1], [5, 3]]) = Inr True \<and>
   check_optimality (Array2 [[2, 1], [3, 3]]) = Inr False \<and>
   check_optimality (Array3 [[[1, 5], [2, 2]], [[1, 3], [2, 2]]]) = Inr False"
  using check_optimality_iff [of "[[2, 1], [5, 3]]" "[[[1, 5], [2, 2]], [[1, 3], [2, 2]]]"]
    check_optimality_iff [of "[[2, 1], [3, 3]]" "[]"]
  by (simp add: np_mean_def eval_nat_numeral All_less_Suc)

subsection \<open>Well-formed agents raise nothing\<close>

text \<open>For a well-formed agent every index is in range and every maximum is taken over a
  non-empty row, so an episode and the whole training loop return a result.\<close>

lemma QAgent_act_returns:
  assumes wf: "wf_QAgent ag" and s: "0 \<le> s" "s < int (length (q_values ag))"
  shows "\<exists>a < 2. QAgent_act ag s False d = Inr a"
proof (cases "rand d < epsilon ag")
  case True
  with wf show ?thesis
    by (simp add: QAgent_act_def np_randint_def wf_QAgent_def)
next
  case False
  from s have "nat s < length (q_values ag)" by simp
  with wf have "length (q_values ag ! nat s) = 2" by (simp add: wf_QAgent_def)
  from choose_best_less [OF this, of "pick d"] False wf s show ?thesis
    by (simp add: QAgent_act_def np_index_in_range wf_QAgent_def)
qed

lemma step_cases:
  assumes "a < 2"
  shows "step c (int a) z =
           (if a = 0 then (c\<lparr>state := state c + 1\<rparr>,
                 Some (state c + 1,
                       (if state c + 1 = num_states c then z * left_std c + 10 else z * left_std c),
                       state c + 1 = num_states c))
            else (c, Some (- 1, z * up_std c, True)))"
  using assms by (auto simp: step_def Let_def)

lemma QAgent_update_returns:
  assumes wf: "wf_QAgent ag" and s: "0 \<le> s" "s < int (length (q_values ag))" and a: "a < 2"
    and ns: "dn \<or> (0 \<le> ns \<and> ns < int (length (q_values ag)))"
  shows "\<exists>ag'. QAgent_update ag s a r ns dn = Inr ag' \<and> wf_QAgent ag' \<and> env ag' = env ag"
proof -
  have row: "length (q_values ag ! i) = 2" if "i < length (q_values ag)" for i
    using wf that by (simp add: wf_QAgent_def)
  have si: "np_index (length (q_values ag)) s = Inr (nat s)"
    using s by (rule np_index_in_range)
  have ai: "np_index (length (q_values ag ! nat s)) (int a) = Inr a"
    using a s row [of "nat s"] by (simp add: np_index_def)
  have tgt: "\<exists>target. (if dn then Inr 0
            else (case np_index (length (q_values ag)) ns of Inl e \<Rightarrow> Inl e
                  | Inr ni \<Rightarrow>
                    (case np_max (q_values ag ! ni) of Inl e \<Rightarrow> Inl e
                     | Inr m \<Rightarrow> Inr (discount ag * m)))) = (Inr target :: py_error + real)"
  proof (cases dn)
    case True
    then show ?thesis by simp
  next
    case False
    with ns have n: "0 \<le> ns" "ns < int (length (q_values ag))" by simp_all
    then have "nat ns < length (q_values ag)" by simp
    from row [OF this] have "q_values ag ! nat ns \<noteq> []" by auto
    with False n show ?thesis
      by (simp add: np_index_in_range np_max_Max)
  qed
  then obtain target where t: "(if dn then Inr 0
            else (case np_index (length (q_values ag)) ns of Inl e \<Rightarrow> Inl e
                  | Inr ni \<Rightarrow>
                    (case np_max (q_values ag ! ni) of Inl e \<Rightarrow> Inl e
                     | Inr m \<Rightarrow> Inr (discount ag * m)))) = (Inr target :: py_error + real)"
    by blast
  let ?q' = "(q_values ag)[nat s := (q_values ag ! nat s)
                [a := q_values ag ! nat s ! a + lr ag * (r + target - q_values ag ! nat s ! a)]]"
  have up: "QAgent_update ag s a r ns dn = Inr (ag\<lparr>q_values := ?q'\<rparr>)"
    unfolding QAgent_update_def t by (simp add: si ai Let_def)
  have "\<forall>row \<in> set ?q'. length row = 2"
  proof
    fix row assume "row \<in> set ?q'"
    then have "row \<in> insert ((q_values ag ! nat s)
                [a := q_values ag ! nat s ! a + lr ag * (r + target - q_values ag ! nat s ! a)])
                (set (q_values ag))"
      using set_update_subset_insert by fastforce
    with wf s row [of "nat s"] show "length row = 2"
      by (auto simp: wf_QAgent_def)
  qed
  with wf have "wf_QAgent (ag\<lparr>q_values := ?q'\<rparr>)"
    by (simp add: wf_QAgent_def)
  with up show ?thesis by auto
qed


lemma QAgent_loop_returns:
  "wf_QAgent ag \<Longrightarrow> 0 \<le> s \<Longrightarrow> s < int (length (q_values ag)) \<Longrightarrow> state (env ag) = s \<Longrightarrow>
     \<exists>ag' tr' t'. QAgent_loop ag s tr rng t = Inr (ag', tr', t') \<and> wf_QAgent ag'"
proof (induction ag s tr rng t rule: QAgent_loop.induct)
  case (1 ag s total_rewards rng t)
  note wf = \<open>wf_QAgent ag\<close>
  let ?c = "env ag"
  from QAgent_act_returns [OF wf "1.prems"(2,3)] obtain a where
    a: "a < 2" and act: "QAgent_act ag s False (rng t) = Inr a"
    by blast
  have "\<exists>c ns reward dn. step ?c (int a) (randn (rng t)) = (c, Some (ns, reward, dn)) \<and>
          num_states c = num_states ?c \<and> action_dim c = action_dim ?c \<and>
          (dn \<or> (ns = s + 1 \<and> state c = s + 1 \<and> s + 1 \<noteq> num_states ?c))"
    using "1.prems"(4) by (auto simp: step_cases [OF a])
  then obtain c ns reward dn where
    st: "step ?c (int a) (randn (rng t)) = (c, Some (ns, reward, dn))"
    and c: "num_states c = num_states ?c" "action_dim c = action_dim ?c"
    and nxt: "dn \<or> (ns = s + 1 \<and> state c = s + 1 \<and> s + 1 \<noteq> num_states ?c)"
    by blast
  let ?ag1 = "ag\<lparr>env := c, total_steps := total_steps ag + 1\<rparr>"
  have wf1: "wf_QAgent ?ag1"
    using wf c by (simp add: wf_QAgent_def)
  have ns: "dn \<or> (0 \<le> ns \<and> ns < int (length (q_values ?ag1)))"
    using nxt "1.prems"(2,3) wf by (auto simp: wf_QAgent_def)
  from QAgent_update_returns [OF wf1 _ _ a ns, of s reward] "1.prems"(2,3)
  obtain ag2 where up: "QAgent_update ?ag1 s a reward ns dn = Inr ag2"
    and wf2: "wf_QAgent ag2" and env2: "env ag2 = c"
    by auto
  have unfold: "QAgent_loop ag s total_rewards rng t =
         (if dn then Inr (ag2, total_rewards + reward, Suc t)
          else QAgent_loop ag2 ns (total_rewards + reward) rng (Suc t))"
    by (subst QAgent_loop.simps) (simp add: act st up)
  show ?case
  proof (cases dn)
    case True
    with unfold wf2 show ?thesis by simp
  next
    case False
    with nxt have n: "ns = s + 1" "state c = s + 1" "s + 1 \<noteq> num_states ?c" by simp_all
    from QAgent_update_shape [OF up] have len: "length (q_values ag2) = length (q_values ag)"
      and lt: "ns < int (length (q_values ag))"
      using False by simp_all
    have "\<exists>ag' tr' t'. QAgent_loop ag2 ns (total_rewards + reward) rng (Suc t) = Inr (ag', tr', t')
            \<and> wf_QAgent ag'"
      using "1.prems"(2) n lt len env2
      by (intro "1.IH" [OF act st [symmetric] refl refl refl up False wf2]) simp_all
    with unfold False show ?thesis by simp
  qed
qed

lemma QAgent_episode_returns:
  assumes "wf_QAgent ag"
  shows "\<exists>ag' r t'. QAgent_episode ag rng t = Inr (ag', r, t') \<and> wf_QAgent ag'"
proof -
  let ?ag0 = "ag\<lparr>env := (env ag)\<lparr>state := 0\<rparr>\<rparr>"
  from assms have "wf_QAgent ?ag0" "0 < int (length (q_values ?ag0))"
    by (simp_all add: wf_QAgent_def)
  from QAgent_loop_returns [OF this(1) _ this(2), of 0 rng t] show ?thesis
    by (simp add: QAgent_episode_def reset_def)
qed


lemma QuantileAgent_act_returns:
  assumes wf: "wf_QuantileAgent ag" and s: "0 \<le> s" "s < int (length (q_values ag))"
  shows "\<exists>a < 2. QuantileAgent_act ag s False d = Inr a"
proof -
  from s have "nat s < length (q_values ag)" by simp
  with wf have len: "length (q_values ag ! nat s) = 2" by (simp add: wf_QuantileAgent_def)
  have si: "np_index (length (q_values ag)) s = Inr (nat s)"
    using s by (rule np_index_in_range)
  have ad: "action_dim (env ag) = 2"
    using wf by (simp add: wf_QuantileAgent_def)
  consider "rand d < epsilon ag" | "\<not> rand d < epsilon ag" "mean_exploration ag"
    | "\<not> rand d < epsilon ag" "\<not> mean_exploration ag" by blast
  then show ?thesis
  proof cases
    case 1
    then show ?thesis by (simp add: QuantileAgent_act_def np_randint_def ad)
  next
    case 2
    have "length (map np_mean (q_values ag ! nat s)) = 2" using len by simp
    from choose_best_less [OF this, of "pick d"] 2 show ?thesis
      by (simp add: QuantileAgent_act_def si ad)
  next
    case 3
    with wf obtain qi where qi: "np_index (num_quantiles ag) (active_quantile ag) = Inr qi"
      using np_index_total [of "num_quantiles ag" "active_quantile ag"]
      by (auto simp: wf_QuantileAgent_def)
    have "length (map (\<lambda>row. row ! qi) (q_values ag ! nat s)) = 2" using len by simp
    from choose_best_less [OF this, of "pick d"] 3 show ?thesis
      by (simp add: QuantileAgent_act_def si ad qi)
  qed
qed

lemma QuantileAgent_target_returns:
  assumes wf: "wf_QuantileAgent ag"
    and ns: "dn \<or> (0 \<le> ns \<and> ns < int (length (q_values ag)))"
  shows "\<exists>target. QuantileAgent_target ag r ns dn = Inr target"
proof (cases dn)
  case True
  then show ?thesis by (simp add: QuantileAgent_target_def)
next
  case False
  with ns have n: "0 \<le> ns" "ns < int (length (q_values ag))" by simp_all
  then have "nat ns < length (q_values ag)" by simp
  with wf have "length (q_values ag ! nat ns) = 2" by (simp add: wf_QuantileAgent_def)
  then have "map np_mean (q_values ag ! nat ns) \<noteq> []" by auto
  from np_argmax_props [OF this] obtain i where
    "np_argmax (map np_mean (q_values ag ! nat ns)) = Inr i" by blast
  with False n show ?thesis
    by (simp add: QuantileAgent_target_def np_index_in_range Let_def)
qed

lemma QuantileAgent_update_returns:
  assumes wf: "wf_QuantileAgent ag" and s: "0 \<le> s" "s < int (length (q_values ag))"
    and a: "a < 2" and ns: "dn \<or> (0 \<le> ns \<and> ns < int (length (q_values ag)))"
  shows "\<exists>ag'. QuantileAgent_update ag s a r ns dn = Inr ag' \<and> wf_QuantileAgent ag' \<and>
           env ag' = env ag"
proof -
  let ?N = "num_quantiles ag"
  have si': "nat s < length (q_values ag)" using s by simp
  then have "q_values ag ! nat s \<in> set (q_values ag)" by simp
  with wf have rows: "length (q_values ag ! nat s) = 2"
    and inner: "\<forall>row \<in> set (q_values ag ! nat s). length row = ?N"
    unfolding wf_QuantileAgent_def by blast+
  from rows a have "q_values ag ! nat s ! a \<in> set (q_values ag ! nat s)" by simp
  with inner have lq: "length (q_values ag ! nat s ! a) = ?N" by simp
  have lcd: "length (cumulative_density ag) = ?N"
    using wf by (simp add: wf_QuantileAgent_def)
  have si: "np_index (length (q_values ag)) s = Inr (nat s)"
    using s by (rule np_index_in_range)
  have ai: "np_index (length (q_values ag ! nat s)) (int a) = Inr a"
    using a rows by (simp add: np_index_def)
  from QuantileAgent_target_returns [OF wf ns] obtain target where
    t: "QuantileAgent_target ag r ns dn = Inr target" by blast
  let ?new = "map2 (\<lambda>x g. x - lr ag * g) (q_values ag ! nat s ! a)
                (loss_backward target (q_values ag ! nat s ! a) (cumulative_density ag))"
  let ?q' = "(q_values ag)[nat s := (q_values ag ! nat s)[a := ?new]]"
  have up: "QuantileAgent_update ag s a r ns dn = Inr (ag\<lparr>q_values := ?q'\<rparr>)"
    by (simp add: QuantileAgent_update_def t si ai Let_def)
  have lnew: "length ?new = ?N"
    using lq lcd by (simp add: loss_backward_def Let_def)
  have "length rows' = 2 \<and> (\<forall>row \<in> set rows'. length row = ?N)" if "rows' \<in> set ?q'" for rows'
  proof -
    from that have "rows' \<in> insert ((q_values ag ! nat s)[a := ?new]) (set (q_values ag))"
      using set_update_subset_insert by fastforce
    then show ?thesis
    proof
      assume r: "rows' = (q_values ag ! nat s)[a := ?new]"
      have "length row = ?N" if "row \<in> set rows'" for row
      proof -
        from that r have "row \<in> insert ?new (set (q_values ag ! nat s))"
          using set_update_subset_insert by fastforce
        with inner lnew show ?thesis by auto
      qed
      with r rows show ?thesis by simp
    next
      assume "rows' \<in> set (q_values ag)"
      with wf show ?thesis by (simp add: wf_QuantileAgent_def)
    qed
  qed
  with wf have "wf_QuantileAgent (ag\<lparr>q_values := ?q'\<rparr>)"
    by (simp add: wf_QuantileAgent_def)
  with up show ?thesis by auto
qed


lemma QuantileAgent_loop_returns:
  "wf_QuantileAgent ag \<Longrightarrow> 0 \<le> s \<Longrightarrow> s < int (length (q_values ag)) \<Longrightarrow>
   state (env ag) = s \<Longrightarrow>
     \<exists>ag' tr' t'. QuantileAgent_loop ag s tr rng t = Inr (ag', tr', t') \<and> wf_QuantileAgent ag'"
proof (induction ag s tr rng t rule: QuantileAgent_loop.induct)
  case (1 ag s total_rewards rng t)
  note wf = \<open>wf_QuantileAgent ag\<close>
  let ?c = "env ag"
  from QuantileAgent_act_returns [OF wf "1.prems"(2,3)] obtain a where
    a: "a < 2" and act: "QuantileAgent_act ag s False (rng t) = Inr a"
    by blast
  have "\<exists>c ns reward dn. step ?c (int a) (randn (rng t)) = (c, Some (ns, reward, dn)) \<and>
          num_states c = num_states ?c \<and> action_dim c = action_dim ?c \<and>
          (dn \<or> (ns = s + 1 \<and> state c = s + 1 \<and> s + 1 \<noteq> num_states ?c))"
    using "1.prems"(4) by (auto simp: step_cases [OF a])
  then obtain c ns reward dn where
    st: "step ?c (int a) (randn (rng t)) = (c, Some (ns, reward, dn))"
    and c: "num_states c = num_states ?c" "action_dim c = action_dim ?c"
    and nxt: "dn \<or> (ns = s + 1 \<and> state c = s + 1 \<and> s + 1 \<noteq> num_states ?c)"
    by blast
  let ?ag1 = "ag\<lparr>env := c, total_steps := total_steps ag + 1\<rparr>"
  have wf1: "wf_QuantileAgent ?ag1"
    using wf c by (simp add: wf_QuantileAgent_def)
  have ns: "dn \<or> (0 \<le> ns \<and> ns < int (length (q_values ?ag1)))"
    using nxt "1.prems"(2,3) wf by (auto simp: wf_QuantileAgent_def)
  from QuantileAgent_update_returns [OF wf1 _ _ a ns, of s reward] "1.prems"(2,3)
  obtain ag2 where up: "QuantileAgent_update ?ag1 s a reward ns dn = Inr ag2"
    and wf2: "wf_QuantileAgent ag2" and env2: "env ag2 = c"
    by auto
  have unfold: "QuantileAgent_loop ag s total_rewards rng t =
         (if dn then Inr (ag2, total_rewards + reward, Suc t)
          else QuantileAgent_loop ag2 ns (total_rewards + reward) rng (Suc t))"
    by (subst QuantileAgent_loop.simps) (simp add: act st up)
  show ?case
  proof (cases dn)
    case True
    with unfold wf2 show ?thesis by simp
  next
    case False
    with nxt have n: "ns = s + 1" "state c = s + 1" "s + 1 \<noteq> num_states ?c" by simp_all
    from QuantileAgent_update_shape [OF up] have len: "length (q_values ag2) = length (q_values ag)"
      and lt: "ns < int (length (q_values ag))"
      using False by simp_all
    have "\<exists>ag' tr' t'. QuantileAgent_loop ag2 ns (total_rewards + reward) rng (Suc t) =
              Inr (ag', tr', t') \<and> wf_QuantileAgent ag'"
      using "1.prems"(2) n lt len env2
      by (intro "1.IH" [OF act st [symmetric] refl refl refl up False wf2]) simp_all
    with unfold False show ?thesis by simp
  qed
qed

lemma QuantileAgent_episode_returns:
  assumes "wf_QuantileAgent ag"
  shows "\<exists>ag' r t'. QuantileAgent_episode ag rng t = Inr (ag', r, t') \<and> wf_QuantileAgent ag'"
proof -
  let ?ag0 = "ag\<lparr>env := (env ag)\<lparr>state := 0\<rparr>\<rparr>"
  from assms have "wf_QuantileAgent ?ag0" "0 < int (length (q_values ?ag0))"
    by (simp_all add: wf_QuantileAgent_def)
  from QuantileAgent_loop_returns [OF this(1) _ this(2), of 0 rng t] show ?thesis
    by (simp add: QuantileAgent_episode_def reset_def)
qed

lemma episode_returns:
  assumes "wf_agent ag"
  shows "\<exists>ag' r t'. episode ag rng t = Inr (ag', r, t') \<and> wf_agent ag'"
proof (cases ag)
  case (AgentQ a)
  with assms have "wf_QAgent a" by (simp add: wf_agent_def)
  from QAgent_episode_returns [OF this, of rng t] AgentQ show ?thesis
    by (auto simp: episode_def wf_agent_def)
next
  case (AgentQuantile a)
  with assms have "wf_QuantileAgent a" by (simp add: wf_agent_def)
  from QuantileAgent_episode_returns [OF this, of rng t] AgentQuantile show ?thesis
    by (auto simp: episode_def wf_agent_def)
qed

lemma check_optimality_returns:
  assumes "wf_agent ag"
  shows "\<exists>b. check_optimality (agent_q_values ag) = Inr b"
proof (cases ag)
  case (AgentQ a)
  with assms have "\<not> list_ex (\<lambda>row. length row < 2) (q_values a)"
    by (simp add: wf_agent_def wf_QAgent_def list_ex_iff)
  with AgentQ show ?thesis
    by (simp add: agent_q_values_def check_optimality_def Let_def)
next
  case (AgentQuantile a)
  with assms have "\<not> list_ex (\<lambda>row. length row < 2) (map (map np_mean) (q_values a))"
    by (simp add: wf_agent_def wf_QuantileAgent_def list_ex_iff)
  with AgentQuantile show ?thesis
    by (simp add: agent_q_values_def check_optimality_def Let_def)
qed

lemma QAgent_init_wf:
  "0 < n \<Longrightarrow> QAgent_init (Chain_init n up left) l e g = Inr ag \<Longrightarrow> wf_QAgent ag"
  by (auto simp: QAgent_init_def Chain_init_def wf_QAgent_def)

lemma QuantileAgent_init_wf:
  "0 < n \<Longrightarrow> 0 < N \<Longrightarrow> m \<or> - int N \<le> aq \<and> aq < int N \<Longrightarrow>
     QuantileAgent_init (Chain_init n up left) l e g N m aq = Inr ag \<Longrightarrow> wf_QuantileAgent ag"
  by (auto simp: QuantileAgent_init_def Chain_init_def wf_QuantileAgent_def)

lemma run_episodes_loop_returns:
  "wf_agent ag \<Longrightarrow> \<exists>ag' v. run_episodes_loop ag max_steps ep rng t = Inr (ag', v)"
proof (induction ag max_steps ep rng t rule: run_episodes_loop.induct)
  case (1 ag max_steps ep rng t)
  from episode_returns [OF "1.prems", of rng t] obtain a1 r t1 where
    epi: "episode ag rng t = Inr (a1, r, t1)" and wf1: "wf_agent a1"
    by blast
  from check_optimality_returns [OF wf1] obtain optimal where
    chk: "check_optimality (agent_q_values a1) = Inr optimal"
    by blast
  have unfold: "run_episodes_loop ag max_steps ep rng t =
          (if optimal then Inr (a1, agent_total_steps a1)
           else if agent_total_steps a1 > max_steps then
             (let ag'' = set_total_steps a1 max_steps in Inr (ag'', agent_total_steps ag''))
           else run_episodes_loop a1 max_steps (Suc ep) rng t1)"
    by (subst run_episodes_loop.simps) (simp add: epi chk)
  show ?case
  proof (cases "optimal \<or> max_steps < agent_total_steps a1")
    case True
    with unfold show ?thesis by (auto simp: Let_def)
  next
    case False
    then have no: "\<not> optimal" "\<not> max_steps < agent_total_steps a1" by simp_all
    from "1.IH" [OF epi refl refl chk no wf1] unfold no show ?thesis by simp
  qed
qed


subsection \<open>Training loop\<close>

lemma run_episodes_loop_result:
  "run_episodes_loop ag max_steps ep rng t = Inr (ag', v) \<Longrightarrow>
   \<exists>n ag1 t1.
     episodes_run (Suc n) ag rng t = Inr (ag1, t1) \<and>
     (\<forall>k. 1 \<le> k \<and> k \<le> n \<longrightarrow>
        (\<exists>agk tk. episodes_run k ag rng t = Inr (agk, tk) \<and> keeps_going agk max_steps)) \<and>
     (check_optimality (agent_q_values ag1) = Inr True \<and> ag' = ag1 \<or>
      check_optimality (agent_q_values ag1) = Inr False \<and> max_steps < agent_total_steps ag1 \<and>
        ag' = set_total_steps ag1 max_steps \<and> agent_total_steps ag' = max_steps) \<and>
     v = agent_total_steps ag'"
proof (induction ag max_steps ep rng t rule: run_episodes_loop.induct)
  case (1 ag max_steps ep rng t)
  from "1.prems" obtain a1 r t1 optimal where
    epi: "episode ag rng t = Inr (a1, r, t1)"
    and chk: "check_optimality (agent_q_values a1) = Inr optimal"
    and res: "(if optimal then Inr (a1, agent_total_steps a1)
               else if agent_total_steps a1 > max_steps then
                 (let ag'' = set_total_steps a1 max_steps in Inr (ag'', agent_total_steps ag''))
               else run_episodes_loop a1 max_steps (Suc ep) rng t1) = Inr (ag', v)"
    by (subst (asm) run_episodes_loop.simps) (auto split: sum.splits prod.splits)
  have one: "episodes_run (Suc 0) ag rng t = Inr (a1, t1)"
    using epi by simp
  have set_steps: "agent_total_steps (set_total_steps a1 max_steps) = max_steps"
    by (simp add: agent_total_steps_def set_total_steps_def split: agent.splits)
  show ?case
  proof (cases "optimal \<or> max_steps < agent_total_steps a1")
    case True
    then have "episodes_run (Suc 0) ag rng t = Inr (a1, t1) \<and>
     (\<forall>k. 1 \<le> k \<and> k \<le> (0::nat) \<longrightarrow>
        (\<exists>agk tk. episodes_run k ag rng t = Inr (agk, tk) \<and> keeps_going agk max_steps)) \<and>
     (check_optimality (agent_q_values a1) = Inr True \<and> ag' = a1 \<or>
      check_optimality (agent_q_values a1) = Inr False \<and> max_steps < agent_total_steps a1 \<and>
        ag' = set_total_steps a1 max_steps \<and> agent_total_steps ag' = max_steps) \<and>
     v = agent_total_steps ag'"
      using one chk res set_steps by (auto simp: Let_def split: if_splits)
    then show ?thesis by blast
  next
    case False
    then have no: "\<not> optimal" "\<not> max_steps < agent_total_steps a1" by simp_all
    with res have rec: "run_episodes_loop a1 max_steps (Suc ep) rng t1 = Inr (ag', v)" by simp
    from "1.IH"[OF epi refl refl chk no rec]
    obtain n ag1 t2 where
      run: "episodes_run (Suc n) a1 rng t1 = Inr (ag1, t2)"
      and mid: "\<forall>k. 1 \<le> k \<and> k \<le> n \<longrightarrow>
        (\<exists>agk tk. episodes_run k a1 rng t1 = Inr (agk, tk) \<and> keeps_going agk max_steps)"
      and fin: "check_optimality (agent_q_values ag1) = Inr True \<and> ag' = ag1 \<or>
        check_optimality (agent_q_values ag1) = Inr False \<and> max_steps < agent_total_steps ag1 \<and>
        ag' = set_total_steps ag1 max_steps \<and> agent_total_steps ag' = max_steps"
      and v: "v = agent_total_steps ag'"
      by blast
    have run': "episodes_run (Suc (Suc n)) ag rng t = Inr (ag1, t2)"
      using epi run by simp
    have mid': "\<exists>agk tk. episodes_run k ag rng t = Inr (agk, tk) \<and> keeps_going agk max_steps"
      if k: "1 \<le> k \<and> k \<le> Suc n" for k
    proof (cases k)
      case 0
      with k show ?thesis by simp
    next
      case (Suc j)
      show ?thesis
      proof (cases j)
        case 0
        with Suc one chk no show ?thesis by (auto simp: keeps_going_def)
      next
        case (Suc i)
        with \<open>k = Suc j\<close> k have "1 \<le> j \<and> j \<le> n" by simp
        with mid obtain agk tk where "episodes_run j a1 rng t1 = Inr (agk, tk)" "keeps_going agk max_steps"
          by blast
        with \<open>k = Suc j\<close> epi show ?thesis by simp
      qed
    qed
    from run' mid' fin v show ?thesis by blast
  qed
qed


lemma run_episodes_budget_example:
  "run_episodes (AgentQ zero_QAgent) (3 / 2) (\<lambda>t. escape_draw) =
     Inr (AgentQ (zero_QAgent\<lparr>total_steps := 3 / 2\<rparr>), 3 / 2)"
  by (simp add: run_episodes_def run_episodes_loop.simps episode_def QAgent_episode_def reset_def
      QAgent_loop.simps QAgent_act_def choose_best_def QAgent_update_def np_index_def np_choice_def
      step_def Chain_init_def check_optimality_def agent_q_values_def agent_total_steps_def set_total_steps_def eval_nat_numeral)

text \<open>
  C8: for a well-formed agent \<open>run_episodes\<close> returns. It has then run episodes one after
  the other and checked after each; after every episode but the last the table was not
  optimal and the step count within \<open>max_steps\<close>; after the last one either
  \<open>check_optimality\<close> is true, or it is false and the step count exceeds \<open>max_steps\<close>, in
  which case the step count of the agent is set to \<open>max_steps\<close>; the returned value is the
  step count of the agent at that moment.
\<close>

theorem run_episodes_stops:
  assumes "wf_agent ag"
  shows "\<exists>ag' v. run_episodes ag max_steps rng = Inr (ag', v) \<and>
    (\<exists>n ag1 t1.
       episodes_run (Suc n) ag rng 0 = Inr (ag1, t1) \<and>
       (\<forall>k. 1 \<le> k \<and> k \<le> n \<longrightarrow>
          (\<exists>agk tk. episodes_run k ag rng 0 = Inr (agk, tk) \<and> keeps_going agk max_steps)) \<and>
       (check_optimality (agent_q_values ag1) = Inr True \<and> ag' = ag1 \<or>
        check_optimality (agent_q_values ag1) = Inr False \<and> max_steps < agent_total_steps ag1 \<and>
          ag' = set_total_steps ag1 max_steps \<and> agent_total_steps ag' = max_steps) \<and>
       v = agent_total_steps ag')"
proof -
  from run_episodes_loop_returns [OF assms, of max_steps 0 rng 0] obtain ag' v where
    r: "run_episodes_loop ag max_steps 0 rng 0 = Inr (ag', v)"
    by blast
  from run_episodes_loop_result [OF r] r show ?thesis
    unfolding run_episodes_def by blast
qed

theorem run_episodes_stops_witness:
  "wf_agent (AgentQ zero_QAgent) \<and>
   run_episodes (AgentQ zero_QAgent) (3 / 2) (\<lambda>t. escape_draw) =
     Inr (AgentQ (zero_QAgent\<lparr>total_steps := 3 / 2\<rparr>), 3 / 2) \<and>
   (\<exists>ag' v. run_episodes (AgentQ zero_QAgent) (3 / 2) (\<lambda>t. escape_draw) = Inr (ag', v) \<and>
    (\<exists>n ag1 t1.
       episodes_run (Suc n) (AgentQ zero_QAgent) (\<lambda>t. escape_draw) 0 = Inr (ag1, t1) \<and>
       (\<forall>k. 1 \<le> k \<and> k \<le> n \<longrightarrow>
          (\<exists>agk tk. episodes_run k (AgentQ zero_QAgent) (\<lambda>t. escape_draw) 0 = Inr (agk, tk) \<and>
             keeps_going agk (3 / 2))) \<and>
       (check_optimality (agent_q_values ag1) = Inr True \<and> ag' = ag1 \<or>
        check_optimality (agent_q_values ag1) = Inr False \<and> 3 / 2 < agent_total_steps ag1 \<and>
          ag' = set_total_steps ag1 (3 / 2) \<and> agent_total_steps ag' = 3 / 2) \<and>
       v = agent_total_steps ag'))"
proof -
  have wf: "wf_agent (AgentQ zero_QAgent)"
    by (simp add: wf_agent_def wf_QAgent_def Chain_init_def)
  from wf run_episodes_budget_example run_episodes_stops [OF wf, of "3 / 2" "\<lambda>t. escape_draw"]
  show ?thesis by (intro conjI)
qed

end
